theory Spec2Isabelle
  imports Complex_Main
begin

section \<open>Arrays\<close>

text \<open>
  The solver of \<^verbatim>\<open>solver_tomo.py\<close> works on three-dimensional complex arrays: a volume
  has shape (depth, width, width), a projection set has shape (angles, depth, width).
  Both are nested lists here, outermost axis first. Elements are exact complex numbers:
  the rounding, overflow and NaN of \<^verbatim>\<open>complex64\<close> are not part of the model. An
  elementwise operation of two arrays pairs the elements of equal index, which is what
  numpy does on operands of equal shape; the statements below fix the shapes where
  they matter.
\<close>

type_synonym arr3 = "complex list list list"

definition zeros3 :: "nat \<Rightarrow> nat \<Rightarrow> nat \<Rightarrow> arr3" where
  "zeros3 a b c = replicate a (replicate b (replicate c 0))"

definition shape3 :: "nat \<Rightarrow> nat \<Rightarrow> nat \<Rightarrow> arr3 \<Rightarrow> bool" where
  "shape3 a b c x \<longleftrightarrow>
     length x = a \<and> (\<forall>p \<in> set x. length p = b \<and> (\<forall>r \<in> set p. length r = c))"

definition ew1 :: "(complex \<Rightarrow> complex) \<Rightarrow> arr3 \<Rightarrow> arr3" where
  "ew1 f x = map (map (map f)) x"

definition ew2 :: "(complex \<Rightarrow> complex \<Rightarrow> complex) \<Rightarrow> arr3 \<Rightarrow> arr3 \<Rightarrow> arr3" where
  "ew2 f x y = map2 (map2 (map2 f)) x y"

definition add3 :: "arr3 \<Rightarrow> arr3 \<Rightarrow> arr3" where
  "add3 = ew2 (+)"

definition sub3 :: "arr3 \<Rightarrow> arr3 \<Rightarrow> arr3" where
  "sub3 = ew2 (-)"

definition mul3 :: "arr3 \<Rightarrow> arr3 \<Rightarrow> arr3" where
  "mul3 = ew2 (*)"

definition neg3 :: "arr3 \<Rightarrow> arr3" where
  "neg3 = ew1 uminus"

definition conj3 :: "arr3 \<Rightarrow> arr3" where
  "conj3 = ew1 cnj"

text \<open>A real scalar times an array, a complex scalar times an array, an array divided
  by a real scalar.\<close>

definition scale3 :: "real \<Rightarrow> arr3 \<Rightarrow> arr3" where
  "scale3 g = ew1 (\<lambda>z. of_real g * z)"

definition cscale3 :: "complex \<Rightarrow> arr3 \<Rightarrow> arr3" where
  "cscale3 c = ew1 (\<lambda>z. c * z)"

definition div3 :: "arr3 \<Rightarrow> real \<Rightarrow> arr3" where
  "div3 x c = ew1 (\<lambda>z. z / of_real c) x"

text \<open>\<^verbatim>\<open>cp.sum\<close> adds all elements; \<^verbatim>\<open>cp.linalg.norm\<close> without further arguments is
  the 2-norm of the flattened array.\<close>

definition ravel :: "arr3 \<Rightarrow> complex list" where
  "ravel x = concat (concat x)"

definition sum3 :: "arr3 \<Rightarrow> complex" where
  "sum3 x = sum_list (ravel x)"

definition norm3 :: "arr3 \<Rightarrow> real" where
  "norm3 x = sqrt (sum_list (map (\<lambda>z. (cmod z)\<^sup>2) (ravel x)))"

section \<open>Indexing with an index array, and slices\<close>

datatype error = ZeroDivisionError | IndexError

definition arange :: "nat \<Rightarrow> nat \<Rightarrow> nat list" where
  "arange lo hi = [lo..<hi]"

text \<open>\<^verbatim>\<open>u[ids]\<close> and \<^verbatim>\<open>data[:, ids]\<close>: a new array of the selected entries of axis 0,
  respectively axis 1; an index beyond the axis raises \<^verbatim>\<open>IndexError\<close>.\<close>

definition take_ax0 :: "nat list \<Rightarrow> 'a list \<Rightarrow> error + 'a list" where
  "take_ax0 ids x =
     (if \<forall>i \<in> set ids. i < length x then Inr (map (\<lambda>i. x ! i) ids) else Inl IndexError)"

definition take_ax1 :: "nat list \<Rightarrow> 'a list list \<Rightarrow> error + 'a list list" where
  "take_ax1 ids x =
     (if \<forall>p \<in> set x. \<forall>i \<in> set ids. i < length p
      then Inr (map (\<lambda>p. map (\<lambda>i. p ! i) ids) x) else Inl IndexError)"

text \<open>\<^verbatim>\<open>res[ids] = val\<close> and \<^verbatim>\<open>res[:, ids] = val\<close>: entry \<open>j\<close> of \<open>val\<close> is stored at index
  \<open>ids[j]\<close>. Every loop below stores at indices it has just read or that lie inside the
  array it allocated itself, so the store is always in range.\<close>

definition put_ax0 :: "nat list \<Rightarrow> 'a list \<Rightarrow> 'a list \<Rightarrow> 'a list" where
  "put_ax0 ids val res = fold (\<lambda>(i, v) r. r[i := v]) (zip ids val) res"

definition put_ax1 :: "nat list \<Rightarrow> 'a list list \<Rightarrow> 'a list list \<Rightarrow> 'a list list" where
  "put_ax1 ids val res = map2 (put_ax0 ids) val res"

text \<open>The basic slices \<^verbatim>\<open>x[lo:hi]\<close> and \<^verbatim>\<open>x[:, lo:hi]\<close>, in which the statements about
  partitions are written.\<close>

definition slice_ax0 :: "nat \<Rightarrow> nat \<Rightarrow> 'a list \<Rightarrow> 'a list" where
  "slice_ax0 lo hi x = take (hi - lo) (drop lo x)"

definition slice_ax1 :: "nat \<Rightarrow> nat \<Rightarrow> 'a list list \<Rightarrow> 'a list list" where
  "slice_ax1 lo hi x = map (slice_ax0 lo hi) x"

section \<open>The solver\<close>

text \<open>
  \<^verbatim>\<open>SolverTomo\<close> holds the extents \<open>ntheta\<close>, \<open>nz\<close>, \<open>n\<close>, \<open>pnz\<close> and inherits the native
  transforms \<^verbatim>\<open>fwd\<close> and \<^verbatim>\<open>adj\<close> of \<^verbatim>\<open>radonusfft\<close>, whose code is not part of the
  repository. Each writes into a buffer that the Python wrapper has allocated with a
  fixed shape; \<open>fwd s u t z x\<close> is the value the native call leaves at index
  \<open>(t, z, x)\<close> of that buffer when it is given the array \<open>u\<close>, and likewise \<open>adj\<close>.
  The extents are natural numbers: a negative extent is refused by \<^verbatim>\<open>zeros\<close>.
\<close>

record solver =
  ntheta :: nat
  nz :: nat
  n :: nat
  pnz :: nat
  fwd :: "arr3 \<Rightarrow> nat \<Rightarrow> nat \<Rightarrow> nat \<Rightarrow> complex"
  adj :: "arr3 \<Rightarrow> nat \<Rightarrow> nat \<Rightarrow> nat \<Rightarrow> complex"

definition fwd_tomo :: "solver \<Rightarrow> arr3 \<Rightarrow> arr3" where
  "fwd_tomo s u =
     map (\<lambda>t. map (\<lambda>z. map (\<lambda>x. fwd s u t z x) [0..<n s]) [0..<pnz s]) [0..<ntheta s]"

definition adj_tomo :: "solver \<Rightarrow> arr3 \<Rightarrow> arr3" where
  "adj_tomo s data =
     map (\<lambda>z. map (\<lambda>y. map (\<lambda>x. adj s data z y x) [0..<n s]) [0..<n s]) [0..<pnz s]"

subsection \<open>Line search\<close>

text \<open>
  The loop halves \<open>gamma\<close> while the test \<^verbatim>\<open>minf(Ru) - minf(Ru + gamma*Rd) < 0\<close> holds.
  Nothing bounds the number of rounds, so the result is an option: \<open>None\<close> is a search
  that never returns.

  The source fixes none of the types: \<open>gamma\<close> is the number the caller passes, \<open>Ru\<close> and
  \<open>Rd\<close> are the caller's arrays, and \<open>minf\<close> returns what the caller makes it return. The
  operations that the loop applies to them are therefore the fields of an arithmetic,
  which the search takes as a parameter: \<open>a_mul\<close> is \<^verbatim>\<open>gamma*Rd\<close>, \<open>a_add\<close> is \<^verbatim>\<open>Ru + ...\<close>,
  \<open>a_sub\<close> is the difference of the two values of \<open>minf\<close>, \<open>a_lt0\<close> is the comparison
  \<^verbatim>\<open>... < 0\<close>, and \<open>a_half\<close> is \<^verbatim>\<open>gamma *= 0.5\<close>. What is proved of the search for every
  arithmetic holds for the floating-point arithmetic of the machine as well.
\<close>

record ('a, 'v, 'g) arith =
  a_mul :: "'g \<Rightarrow> 'a \<Rightarrow> 'a"
  a_add :: "'a \<Rightarrow> 'a \<Rightarrow> 'a"
  a_sub :: "'v \<Rightarrow> 'v \<Rightarrow> 'v"
  a_lt0 :: "'v \<Rightarrow> bool"
  a_half :: "'g \<Rightarrow> 'g"

partial_function (option) line_search ::
  "('a, 'v, 'g) arith \<Rightarrow> ('a \<Rightarrow> 'v) \<Rightarrow> 'g \<Rightarrow> 'a \<Rightarrow> 'a \<Rightarrow> 'g option" where
  "line_search A minf gamma Ru Rd =
     (if a_lt0 A (a_sub A (minf Ru) (minf (a_add A Ru (a_mul A gamma Rd))))
      then line_search A minf (a_half A gamma) Ru Rd
      else Some gamma)"

text \<open>The test of the loop at the step \<open>g\<close>: true when the loop goes on.\<close>

definition loop_test :: "('a, 'v, 'g) arith \<Rightarrow> ('a \<Rightarrow> 'v) \<Rightarrow> 'a \<Rightarrow> 'a \<Rightarrow> 'g \<Rightarrow> bool" where
  "loop_test A mf Ru Rd g \<longleftrightarrow> a_lt0 A (a_sub A (mf Ru) (mf (a_add A Ru (a_mul A g Rd))))"

subsection \<open>Exact arithmetic\<close>

text \<open>
  The arithmetic of the real numbers on arrays of complex numbers: no rounding, no
  overflow, no NaN. It is the arithmetic in which \<open>cg_tomo\<close> is modelled below.
\<close>

definition exact :: "(arr3, real, real) arith" where
  "exact = \<lparr>a_mul = scale3, a_add = add3, a_sub = (-), a_lt0 = (\<lambda>x. x < 0),
            a_half = (\<lambda>g. g * (1/2))\<rparr>"

text \<open>In exact arithmetic the loop stops at a step \<open>g\<close> exactly when \<open>g\<close> does not
  increase \<open>minf\<close>.\<close>

definition non_increase :: "(arr3 \<Rightarrow> real) \<Rightarrow> arr3 \<Rightarrow> arr3 \<Rightarrow> real \<Rightarrow> bool" where
  "non_increase mf Ru Rd g \<longleftrightarrow> mf Ru - mf (add3 Ru (scale3 g Rd)) \<ge> 0"

subsection \<open>Floating-point values\<close>

text \<open>
  Floating-point values with their special values: a finite number, the two infinities,
  and NaN. The operations follow IEEE 754 on the special values: \<open>inf - inf\<close> and
  \<open>0 * inf\<close> are NaN, NaN propagates, and every comparison with NaN is false. A finite
  step of magnitude at most \<open>2^-1074\<close>, the smallest positive double, is halved to 0.
  Finite results are not rounded and do not overflow, and there is one zero: the
  arithmetic \<open>ieee\<close> is the machine's on the runs whose finite values the machine
  represents and computes exactly, and it is used for such runs only. Arrays are flat
  lists of values.
\<close>

datatype fval = Fin real | PInf | NInf | NaN

fun fneg :: "fval \<Rightarrow> fval" where
  "fneg (Fin a) = Fin (- a)"
| "fneg PInf = NInf"
| "fneg NInf = PInf"
| "fneg NaN = NaN"

fun fadd :: "fval \<Rightarrow> fval \<Rightarrow> fval" where
  "fadd NaN y = NaN"
| "fadd x NaN = NaN"
| "fadd PInf NInf = NaN"
| "fadd NInf PInf = NaN"
| "fadd PInf y = PInf"
| "fadd x PInf = PInf"
| "fadd NInf y = NInf"
| "fadd x NInf = NInf"
| "fadd (Fin a) (Fin b) = Fin (a + b)"

definition fsub :: "fval \<Rightarrow> fval \<Rightarrow> fval" where
  "fsub x y = fadd x (fneg y)"

fun fsign :: "fval \<Rightarrow> int" where
  "fsign (Fin a) = (if a < 0 then - 1 else if a = 0 then 0 else 1)"
| "fsign PInf = 1"
| "fsign NInf = - 1"
| "fsign NaN = 0"

fun fmul :: "fval \<Rightarrow> fval \<Rightarrow> fval" where
  "fmul NaN y = NaN"
| "fmul x NaN = NaN"
| "fmul (Fin a) (Fin b) = Fin (a * b)"
| "fmul x y =
     (if fsign x * fsign y = 0 then NaN else if 0 < fsign x * fsign y then PInf else NInf)"

fun flt0 :: "fval \<Rightarrow> bool" where
  "flt0 (Fin a) \<longleftrightarrow> a < 0"
| "flt0 NInf \<longleftrightarrow> True"
| "flt0 PInf \<longleftrightarrow> False"
| "flt0 NaN \<longleftrightarrow> False"

fun fle :: "fval \<Rightarrow> fval \<Rightarrow> bool" where
  "fle NaN y \<longleftrightarrow> False"
| "fle x NaN \<longleftrightarrow> False"
| "fle NInf y \<longleftrightarrow> True"
| "fle x PInf \<longleftrightarrow> True"
| "fle (Fin a) (Fin b) \<longleftrightarrow> a \<le> b"
| "fle x y \<longleftrightarrow> False"

fun fhalf :: "fval \<Rightarrow> fval" where
  "fhalf (Fin a) = (if \<bar>a\<bar> \<le> 1 / 2 ^ 1074 then Fin 0 else Fin (a * (1/2)))"
| "fhalf x = x"

definition ieee :: "(fval list, fval, fval) arith" where
  "ieee = \<lparr>a_mul = (\<lambda>g. map (fmul g)), a_add = map2 fadd, a_sub = fsub, a_lt0 = flt0,
           a_half = fhalf\<rparr>"

text \<open>
  Two objectives for runs in \<open>ieee\<close>: one that is infinite everywhere, and one that is 0
  at a given array and 1 at every other array. The comparison of arrays is equality of
  lists, which is the comparison of the machine as long as the given array holds no
  NaN.
\<close>

definition overflowed :: "fval list \<Rightarrow> fval" where
  "overflowed x = PInf"

definition only_at :: "fval list \<Rightarrow> fval list \<Rightarrow> fval" where
  "only_at Ru x = (if x = Ru then Fin 0 else Fin 1)"

subsection \<open>Batched transforms\<close>

fun fwd_batch_loop :: "solver \<Rightarrow> arr3 \<Rightarrow> nat list \<Rightarrow> arr3 \<Rightarrow> error + arr3" where
  "fwd_batch_loop s u [] res = Inr res"
| "fwd_batch_loop s u (k # ks) res =
     (let ids = arange (k * pnz s) ((k + 1) * pnz s) in
      case take_ax0 ids u of
        Inl e \<Rightarrow> Inl e
      | Inr u_gpu \<Rightarrow>
          let res_gpu = fwd_tomo s u_gpu
          in fwd_batch_loop s u ks (put_ax1 ids res_gpu res))"

definition fwd_tomo_batch :: "solver \<Rightarrow> arr3 \<Rightarrow> error + arr3" where
  "fwd_tomo_batch s u =
     (if pnz s = 0 then Inl ZeroDivisionError
      else fwd_batch_loop s u [0..<nz s div pnz s] (zeros3 (ntheta s) (nz s) (n s)))"

fun adj_batch_loop :: "solver \<Rightarrow> arr3 \<Rightarrow> nat list \<Rightarrow> arr3 \<Rightarrow> error + arr3" where
  "adj_batch_loop s data [] res = Inr res"
| "adj_batch_loop s data (k # ks) res =
     (let ids = arange (k * pnz s) ((k + 1) * pnz s) in
      case take_ax1 ids data of
        Inl e \<Rightarrow> Inl e
      | Inr data_gpu \<Rightarrow>
          let res_gpu = adj_tomo s data_gpu
          in adj_batch_loop s data ks (put_ax0 ids res_gpu res))"

definition adj_tomo_batch :: "solver \<Rightarrow> arr3 \<Rightarrow> error + arr3" where
  "adj_tomo_batch s data =
     (if pnz s = 0 then Inl ZeroDivisionError
      else adj_batch_loop s data [0..<nz s div pnz s] (zeros3 (nz s) (n s) (n s)))"

subsection \<open>Conjugate gradients for one partition\<close>

definition minf :: "arr3 \<Rightarrow> arr3 \<Rightarrow> real" where
  "minf xi0 Ru = (norm3 (sub3 Ru xi0))\<^sup>2"

text \<open>
  One round of the loop of \<^verbatim>\<open>cg_tomo\<close>. The loop carries the variables \<open>u\<close>, \<open>d\<close> and
  \<open>grad0\<close>; round 0 assigns \<open>d\<close> and \<open>grad0\<close> before any round reads them. The printing
  guarded by \<^verbatim>\<open>np.mod(i, 1) == -1\<close> never runs. A round whose line search does not
  return does not return either.
\<close>

definition cg_body ::
  "solver \<Rightarrow> arr3 \<Rightarrow> nat \<Rightarrow> arr3 \<times> arr3 \<times> arr3 \<Rightarrow> (arr3 \<times> arr3 \<times> arr3) option" where
  "cg_body s xi0 i st =
     (case st of (u, d, grad0) \<Rightarrow>
        let Ru = fwd_tomo s u;
            grad = div3 (adj_tomo s (sub3 Ru xi0)) (real (ntheta s * n s) / 2);
            d' = (if i = 0 then neg3 grad
                  else add3 (neg3 grad)
                         (cscale3 (of_real ((norm3 grad)\<^sup>2) /
                                   (sum3 (mul3 (conj3 d) (sub3 grad grad0)) + 1 / 10 ^ 32)) d));
            Rd = fwd_tomo s d'
        in (case line_search exact (minf xi0) 1 Ru Rd of
              None \<Rightarrow> None
            | Some ls \<Rightarrow>
                (let gamma = (1/2) * ls
                 in Some (add3 u (scale3 gamma d'), d', grad))))"

fun cg_loop ::
  "solver \<Rightarrow> arr3 \<Rightarrow> nat list \<Rightarrow> arr3 \<times> arr3 \<times> arr3 \<Rightarrow> (arr3 \<times> arr3 \<times> arr3) option" where
  "cg_loop s xi0 [] st = Some st"
| "cg_loop s xi0 (i # is) st =
     (case cg_body s xi0 i st of None \<Rightarrow> None | Some st' \<Rightarrow> cg_loop s xi0 is st')"

text \<open>The loop runs over \<^verbatim>\<open>range(titer)\<close>. The number of rounds is a natural number: a
  negative \<open>titer\<close> gives the empty range, as 0 does.\<close>

definition cg_tomo :: "solver \<Rightarrow> arr3 \<Rightarrow> arr3 \<Rightarrow> nat \<Rightarrow> arr3 option" where
  "cg_tomo s xi0 u titer = map_option fst (cg_loop s xi0 [0..<titer] (u, [], []))"

subsection \<open>Conjugate gradients by partitions\<close>

text \<open>
  \<^verbatim>\<open>cg_tomo_batch\<close> copies \<open>init\<close> and then stores into the copy, so it is modelled on a
  store of host arrays: a list of arrays, an address being an index, a new array being
  appended. The arrays \<open>xi0\<close> and \<open>init\<close> are given by their addresses and may be the same
  object. The result is the store after the call and either the error raised or the
  address of the array returned; \<open>None\<close> is a call that does not return.
\<close>

type_synonym heap = "arr3 list"

fun cg_batch_loop ::
  "solver \<Rightarrow> nat \<Rightarrow> nat \<Rightarrow> nat \<Rightarrow> nat list \<Rightarrow> heap \<Rightarrow> (heap \<times> (error + unit)) option" where
  "cg_batch_loop s xi0 u titer [] h = Some (h, Inr ())"
| "cg_batch_loop s xi0 u titer (k # ks) h =
     (let ids = arange (k * pnz s) ((k + 1) * pnz s) in
      case take_ax0 ids (h ! u) of
        Inl e \<Rightarrow> Some (h, Inl e)
      | Inr u_gpu \<Rightarrow>
         (case take_ax1 ids (h ! xi0) of
            Inl e \<Rightarrow> Some (h, Inl e)
          | Inr xi0_gpu \<Rightarrow>
             (case cg_tomo s xi0_gpu u_gpu titer of
                None \<Rightarrow> None
              | Some u_gpu' \<Rightarrow>
                  cg_batch_loop s xi0 u titer ks (h[u := put_ax0 ids u_gpu' (h ! u)]))))"

definition cg_tomo_batch ::
  "solver \<Rightarrow> heap \<Rightarrow> nat \<Rightarrow> nat \<Rightarrow> nat \<Rightarrow> (heap \<times> (error + nat)) option" where
  "cg_tomo_batch s h xi0 init titer =
     (let u = length h;
          h1 = h @ [h ! init]
      in if pnz s = 0 then Some (h1, Inl ZeroDivisionError)
         else case cg_batch_loop s xi0 u titer [0..<nz s div pnz s] h1 of
                None \<Rightarrow> None
              | Some (h', Inl e) \<Rightarrow> Some (h', Inl e)
              | Some (h', Inr _) \<Rightarrow> Some (h', Inr u))"

section \<open>Notions of the specification\<close>

text \<open>The number of depth slices that the loops over partitions reach.\<close>

definition covered :: "solver \<Rightarrow> nat" where
  "covered s = (nz s div pnz s) * pnz s"

text \<open>
  The inner product that round \<open>i \<ge> 1\<close> of \<open>cg_tomo\<close> computes,
  \<^verbatim>\<open>sum(conj(d) * (grad - grad0))\<close>, its real part, and the direction as the specification
  words it, with the real inner product in the denominator.
\<close>

definition inner3 :: "arr3 \<Rightarrow> arr3 \<Rightarrow> complex" where
  "inner3 a b = sum3 (mul3 (conj3 a) b)"

definition real_inner3 :: "arr3 \<Rightarrow> arr3 \<Rightarrow> real" where
  "real_inner3 a b = Re (inner3 a b)"

definition spec_direction :: "nat \<Rightarrow> arr3 \<Rightarrow> arr3 \<Rightarrow> arr3 \<Rightarrow> arr3" where
  "spec_direction i grad d grad_prev =
     (if i = 0 then neg3 grad
      else add3 (neg3 grad)
             (cscale3 (of_real ((norm3 grad)\<^sup>2 / (real_inner3 d (sub3 grad grad_prev) + 1 / 10 ^ 32))) d))"

text \<open>
  Steps 1 and 3 of the specification's algorithm: the gradient of an iterate, with the
  divisor \<open>num_angles * width / 2\<close>, and the step size, half of what the line search
  from 1 returns.
\<close>

definition spec_grad :: "solver \<Rightarrow> arr3 \<Rightarrow> arr3 \<Rightarrow> arr3" where
  "spec_grad s xi0 u =
     div3 (adj_tomo s (sub3 (fwd_tomo s u) xi0)) (real (ntheta s) * real (n s) / 2)"

definition spec_gamma :: "solver \<Rightarrow> arr3 \<Rightarrow> arr3 \<Rightarrow> arr3 \<Rightarrow> real option" where
  "spec_gamma s xi0 u d =
     map_option (\<lambda>ls. 0.5 * ls) (line_search exact (minf xi0) 1 (fwd_tomo s u) (fwd_tomo s d))"


text \<open>
  Adjoint consistency of the transforms of one partition, \<open>\<langle>fwd_tomo u, p\<rangle> = \<langle>u, adj_tomo p\<rangle>\<close>
  on arrays of the partition's shapes.
\<close>

definition adjoint_pair :: "solver \<Rightarrow> bool" where
  "adjoint_pair s \<longleftrightarrow>
     (\<forall>u p. shape3 (pnz s) (n s) (n s) u \<and> shape3 (ntheta s) (pnz s) (n s) p \<longrightarrow>
        inner3 (fwd_tomo s u) p = inner3 u (adj_tomo s p))"

text \<open>
  What makes ``the largest step'' meaningful for a halving sequence: in the order \<open>le\<close>,
  halving a step that is not below \<open>z\<close> gives a step that is not below \<open>z\<close> and not
  above the step halved. The order is transitive, and reflexive on these steps.
\<close>

definition shrinking :: "('g \<Rightarrow> 'g \<Rightarrow> bool) \<Rightarrow> 'g \<Rightarrow> ('g \<Rightarrow> 'g) \<Rightarrow> bool" where
  "shrinking le z h \<longleftrightarrow>
     (\<forall>x. le z x \<longrightarrow> le x x \<and> le z (h x) \<and> le (h x) x) \<and>
     (\<forall>x y w. le x y \<and> le y w \<longrightarrow> le x w)"

section \<open>Auxiliary notions\<close>

text \<open>
  Notions that only the proofs use. \<open>fwd_step\<close> and \<open>adj_step\<close> are one round of the loop of
  a batched transform without its error branch; \<open>fwd_rows s u j t\<close> are the rows of angle
  \<open>t\<close> that the first \<open>j\<close> rounds of \<open>fwd_tomo_batch\<close> have stored, \<open>adj_blocks s data j\<close> the
  slices that the first \<open>j\<close> rounds of \<open>adj_tomo_batch\<close> have stored.
\<close>

definition fwd_step :: "solver \<Rightarrow> arr3 \<Rightarrow> nat \<Rightarrow> arr3 \<Rightarrow> arr3" where
  "fwd_step s u k res =
     put_ax1 (arange (k * pnz s) ((k + 1) * pnz s))
       (fwd_tomo s (slice_ax0 (k * pnz s) ((k + 1) * pnz s) u)) res"

definition fwd_rows :: "solver \<Rightarrow> arr3 \<Rightarrow> nat \<Rightarrow> nat \<Rightarrow> complex list list" where
  "fwd_rows s u j t =
     concat (map (\<lambda>k. fwd_tomo s (slice_ax0 (k * pnz s) ((k + 1) * pnz s) u) ! t) [0..<j])"

definition adj_step :: "solver \<Rightarrow> arr3 \<Rightarrow> nat \<Rightarrow> arr3 \<Rightarrow> arr3" where
  "adj_step s data k res =
     put_ax0 (arange (k * pnz s) ((k + 1) * pnz s))
       (adj_tomo s (slice_ax1 (k * pnz s) ((k + 1) * pnz s) data)) res"

definition adj_blocks :: "solver \<Rightarrow> arr3 \<Rightarrow> nat \<Rightarrow> arr3" where
  "adj_blocks s data j =
     concat (map (\<lambda>k. adj_tomo s (slice_ax1 (k * pnz s) ((k + 1) * pnz s) data)) [0..<j])"


text \<open>The inner product, axis by axis.\<close>

definition ip1 :: "complex list \<Rightarrow> complex list \<Rightarrow> complex" where
  "ip1 xs ys = sum_list (map2 (\<lambda>x y. cnj x * y) xs ys)"

definition ip2 :: "complex list list \<Rightarrow> complex list list \<Rightarrow> complex" where
  "ip2 a b = sum_list (map2 ip1 a b)"

definition ip3 :: "arr3 \<Rightarrow> arr3 \<Rightarrow> complex" where
  "ip3 a b = sum_list (map2 ip2 a b)"

section \<open>Solvers for concrete runs\<close>

text \<open>
  A small pair of transforms for concrete runs: the forward transform sums each row of
  a slice and weights it by the angle index, the other one is its adjoint.
\<close>

definition toy_fwd :: "arr3 \<Rightarrow> nat \<Rightarrow> nat \<Rightarrow> nat \<Rightarrow> complex" where
  "toy_fwd u t z x = of_nat (t + 1) * sum_list (u ! z ! x)"

definition toy_adj :: "arr3 \<Rightarrow> nat \<Rightarrow> nat \<Rightarrow> nat \<Rightarrow> complex" where
  "toy_adj p z y x = sum_list (map (\<lambda>t. of_nat (t + 1) * p ! t ! z ! y) [0..<length p])"

definition toy :: "nat \<Rightarrow> nat \<Rightarrow> nat \<Rightarrow> nat \<Rightarrow> solver" where
  "toy a b c e = \<lparr>ntheta = a, nz = b, n = c, pnz = e, fwd = toy_fwd, adj = toy_adj\<rparr>"

text \<open>
  A solver on a single cell whose \<open>adj\<close> is not the adjoint of its \<open>fwd\<close>: the forward
  transform is the identity, \<open>adj\<close> multiplies by \<open>(1 + i) / 4\<close>. \<open>skew_d1\<close> is the direction
  that round 1 computes from the target 0 and the start 1.
\<close>

definition skew :: solver where
  "skew = \<lparr>ntheta = 1, nz = 1, n = 1, pnz = 1,
           fwd = (\<lambda>u t z x. u ! 0 ! 0 ! 0),
           adj = (\<lambda>p z y x. Complex (1/4) (1/4) * p ! 0 ! 0 ! 0)\<rparr>"

definition skew_d1 :: complex where
  "skew_d1 = - Complex (1/2) (1/4) +
     of_real (5/16) / (Complex (1/8) (1/8) + 1 / 10 ^ 32) * Complex (- (1/2)) (- (1/2))"

section \<open>The line search\<close>

subsection \<open>In every arithmetic\<close>

lemma line_search_step:
  "line_search A mf g Ru Rd =
     (if loop_test A mf Ru Rd g then line_search A mf (a_half A g) Ru Rd else Some g)"
  by (subst line_search.simps) (simp add: loop_test_def)

lemma line_search_stops:
  "\<not> loop_test A mf Ru Rd ((a_half A ^^ k) g) \<Longrightarrow>
   (\<forall>j<k. loop_test A mf Ru Rd ((a_half A ^^ j) g)) \<Longrightarrow>
   line_search A mf g Ru Rd = Some ((a_half A ^^ k) g)"
proof (induction k arbitrary: g)
  case 0
  then show ?case by (subst line_search_step) simp
next
  case (Suc k)
  have first: "loop_test A mf Ru Rd g"
    using Suc.prems(2) [rule_format, of 0] by simp
  have last: "\<not> loop_test A mf Ru Rd ((a_half A ^^ k) (a_half A g))"
    using Suc.prems(1) by (simp add: funpow_swap1)
  have rest: "\<forall>j<k. loop_test A mf Ru Rd ((a_half A ^^ j) (a_half A g))"
  proof (intro allI impI)
    fix j assume "j < k"
    then show "loop_test A mf Ru Rd ((a_half A ^^ j) (a_half A g))"
      using Suc.prems(2) [rule_format, of "Suc j"] by (simp add: funpow_swap1)
  qed
  have "line_search A mf (a_half A g) Ru Rd = Some ((a_half A ^^ k) (a_half A g))"
    using Suc.IH [OF last rest] .
  then show ?case
    using first by (subst line_search_step) (simp add: funpow_swap1)
qed

lemma line_search_stopped:
  assumes "line_search A mf g Ru Rd = Some r"
  shows "\<exists>k. r = (a_half A ^^ k) g \<and> \<not> loop_test A mf Ru Rd r \<and>
             (\<forall>j<k. loop_test A mf Ru Rd ((a_half A ^^ j) g))"
proof (rule line_search.raw_induct
    [where P = "\<lambda>A mf g Ru Rd r. \<exists>k. r = (a_half A ^^ k) g \<and> \<not> loop_test A mf Ru Rd r \<and>
       (\<forall>j<k. loop_test A mf Ru Rd ((a_half A ^^ j) g))", OF _ assms], goal_cases)
  case (1 ls A mf g Ru Rd r)
  show ?case
  proof (cases "loop_test A mf Ru Rd g")
    case False
    with 1(2) have "r = g" by (simp add: loop_test_def split: if_splits)
    with False show ?thesis by (intro exI [of _ 0]) simp
  next
    case True
    with 1(2) have "ls A mf (a_half A g) Ru Rd = Some r"
      by (simp add: loop_test_def split: if_splits)
    from 1(1) [OF this] obtain k where k: "r = (a_half A ^^ k) (a_half A g)"
      "\<not> loop_test A mf Ru Rd r" "\<forall>j<k. loop_test A mf Ru Rd ((a_half A ^^ j) (a_half A g))"
      by blast
    have "\<forall>j<Suc k. loop_test A mf Ru Rd ((a_half A ^^ j) g)"
    proof (intro allI impI)
      fix j assume j: "j < Suc k"
      show "loop_test A mf Ru Rd ((a_half A ^^ j) g)"
      proof (cases j)
        case 0
        with True show ?thesis by simp
      next
        case (Suc j')
        with j k(3) [rule_format, of j'] show ?thesis by (simp add: funpow_swap1)
      qed
    qed
    with k(1,2) show ?thesis
      by (intro exI [of _ "Suc k"]) (simp add: funpow_swap1)
  qed
qed

lemma line_search_loops:
  "(\<forall>k. loop_test A mf Ru Rd ((a_half A ^^ k) g)) \<Longrightarrow> line_search A mf g Ru Rd = None"
proof (rule ccontr)
  assume a: "\<forall>k. loop_test A mf Ru Rd ((a_half A ^^ k) g)" and "line_search A mf g Ru Rd \<noteq> None"
  then obtain r where "line_search A mf g Ru Rd = Some r" by blast
  from line_search_stopped [OF this] a show False by blast
qed

text \<open>A halving sequence from a step that is not below \<open>z\<close> never rises.\<close>

lemma shrinking_chain:
  assumes "shrinking le z h" "le z g0"
  shows "le z ((h ^^ i) g0)" and "k \<le> j \<Longrightarrow> le ((h ^^ j) g0) ((h ^^ k) g0)"
proof -
  have step: "le x x \<and> le z (h x) \<and> le (h x) x" if "le z x" for x
    using assms(1) that unfolding shrinking_def by blast
  have trans: "le x w" if "le x y" "le y w" for x y w
    using assms(1) that unfolding shrinking_def by blast
  show pos: "le z ((h ^^ i) g0)" for i
    by (induction i) (use assms(2) step in auto)
  show "le ((h ^^ j) g0) ((h ^^ k) g0)" if "k \<le> j"
    using that
  proof (induction j)
    case 0
    then show ?case using step [OF pos [of 0]] by simp
  next
    case (Suc j)
    show ?case
    proof (cases "k = Suc j")
      case True
      then show ?thesis using step [OF pos [of "Suc j"]] by simp
    next
      case False
      with Suc.prems have "k \<le> j" by simp
      then have "le ((h ^^ j) g0) ((h ^^ k) g0)" by (rule Suc.IH)
      moreover have "le ((h ^^ Suc j) g0) ((h ^^ j) g0)"
        using step [OF pos [of j]] by simp
      ultimately show ?thesis by (rule trans [rotated])
    qed
  qed
qed

subsection \<open>In exact arithmetic\<close>

lemma exact_sel [simp]:
  "a_mul exact = scale3" "a_add exact = add3" "a_sub exact = (-)"
  "a_lt0 exact = (\<lambda>x. x < 0)" "a_half exact = (\<lambda>g. g * (1/2))"
  by (simp_all add: exact_def)

lemma loop_test_exact: "loop_test exact mf Ru Rd g \<longleftrightarrow> \<not> non_increase mf Ru Rd g"
  by (simp add: loop_test_def non_increase_def not_le)


lemma shrinking_exact: "shrinking (\<le>) (0::real) (a_half exact)"
  by (simp add: shrinking_def)

lemma line_search_unfold:
  "line_search exact mf g Ru Rd =
     (if non_increase mf Ru Rd g then Some g else line_search exact mf (g * (1/2)) Ru Rd)"
  by (subst line_search_step) (simp add: loop_test_exact)

lemma line_search_accept:
  "non_increase mf Ru Rd g \<Longrightarrow> line_search exact mf g Ru Rd = Some g"
  by (subst line_search_unfold) simp

lemma line_search_reject:
  "\<not> non_increase mf Ru Rd g \<Longrightarrow>
   line_search exact mf g Ru Rd = line_search exact mf (g * (1/2)) Ru Rd"
  by (subst line_search_unfold) simp


subsection \<open>In floating-point arithmetic\<close>

lemma ieee_sel [simp]:
  "a_mul ieee = (\<lambda>g. map (fmul g))" "a_add ieee = map2 fadd" "a_sub ieee = fsub"
  "a_lt0 ieee = flt0" "a_half ieee = fhalf"
  by (simp_all add: ieee_def)

lemma fle_trans: "fle x y \<Longrightarrow> fle y w \<Longrightarrow> fle x w"
  by (cases x; cases y; cases w) simp_all

lemma shrinking_ieee: "shrinking fle (Fin 0) (a_half ieee)"
  unfolding shrinking_def
proof (intro conjI allI impI)
  fix x assume "fle (Fin 0) x"
  then show "fle x x" "fle (Fin 0) (a_half ieee x)" "fle (a_half ieee x) x"
    by (cases x; simp)+
next
  fix x y w assume "fle x y \<and> fle y w"
  then show "fle x w" using fle_trans by blast
qed

text \<open>A step that starts at 1 is 0 after 1075 halvings.\<close>

lemma fhalf_normal: "k \<le> 1074 \<Longrightarrow> (fhalf ^^ k) (Fin 1) = Fin (1 / 2 ^ k)"
proof (induction k)
  case 0
  then show ?case by simp
next
  case (Suc k)
  then have "k < 1074" by simp
  then have "(2::real) ^ k < 2 ^ 1074" by (rule power_strict_increasing) simp
  then have "1 / (2::real) ^ 1074 < 1 / 2 ^ k"
    by (rule divide_strict_left_mono) simp_all
  moreover have "\<bar>1 / (2::real) ^ k\<bar> = 1 / 2 ^ k"
    by simp
  ultimately have big: "\<not> \<bar>1 / (2::real) ^ k\<bar> \<le> 1 / 2 ^ 1074"
    by (simp only: not_le)
  have "(fhalf ^^ Suc k) (Fin 1) = fhalf (Fin (1 / 2 ^ k))"
    using Suc by simp
  also have "\<dots> = Fin (1 / 2 ^ k * (1/2))"
    using big by (simp only: fhalf.simps if_False)
  also have "1 / (2::real) ^ k * (1/2) = 1 / 2 ^ Suc k"
    by simp
  finally show ?case .
qed

lemma fhalf_underflow: "(fhalf ^^ Suc 1074) (Fin 1) = Fin 0"
proof -
  have "(fhalf ^^ Suc 1074) (Fin 1) = fhalf ((fhalf ^^ 1074) (Fin 1))"
    by (simp only: funpow.simps o_apply)
  also have "\<dots> = fhalf (Fin (1 / 2 ^ 1074))"
    by (simp only: fhalf_normal [OF order_refl])
  also have "\<dots> = Fin 0" by simp
  finally show ?thesis .
qed

text \<open>The two runs in \<open>ieee\<close>.\<close>

lemma overflowed_run:
  "line_search ieee overflowed (Fin 1) [Fin 0] [Fin 1] = Some (Fin 1)"
  by (subst line_search_step) (simp add: loop_test_def overflowed_def fsub_def)

lemma only_at_test: "loop_test ieee (only_at [Fin 0]) [Fin 0] [PInf] g"
  by (cases g) (simp_all add: loop_test_def only_at_def fsub_def)

subsection \<open>Evaluating concrete runs\<close>

lemma sumsq_nonneg: "0 \<le> sum_list (map (\<lambda>z. (cmod z)\<^sup>2) zs)"
  by (rule sum_list_nonneg) auto

lemma minf_sumsq: "minf xi0 Ru = sum_list (map (\<lambda>z. (cmod z)\<^sup>2) (ravel (sub3 Ru xi0)))"
  by (simp add: minf_def norm3_def sumsq_nonneg)

lemma norm3_sq: "(norm3 x)\<^sup>2 = sum_list (map (\<lambda>z. (cmod z)\<^sup>2) (ravel x))"
  by (simp add: norm3_def sumsq_nonneg)

lemma minf_one_cell:
  "minf [[[c]]] [[[a]]] = (cmod (a - c))\<^sup>2"
  by (simp add: minf_sumsq ravel_def sub3_def ew2_def)

lemma step_one_cell:
  "add3 [[[a]]] (scale3 g [[[b]]]) = [[[a + of_real g * b]]]"
  by (simp add: add3_def scale3_def ew1_def ew2_def)

lemma non_increase_one_cell:
  "non_increase (minf [[[x]]]) [[[a]]] [[[b]]] g \<longleftrightarrow>
     (Re (a + of_real g * b - x))\<^sup>2 + (Im (a + of_real g * b - x))\<^sup>2 \<le>
     (Re (a - x))\<^sup>2 + (Im (a - x))\<^sup>2"
  by (simp add: non_increase_def minf_one_cell step_one_cell cmod_power2)

lemma toy_sel [simp]:
  "ntheta (toy a b c e) = a" "nz (toy a b c e) = b" "n (toy a b c e) = c" "pnz (toy a b c e) = e"
  "fwd (toy a b c e) = toy_fwd" "adj (toy a b c e) = toy_adj"
  by (simp_all add: toy_def)

lemma skew_sel [simp]:
  "ntheta skew = 1" "nz skew = 1" "n skew = 1" "pnz skew = 1"
  "fwd skew = (\<lambda>u t z x. u ! 0 ! 0 ! 0)"
  "adj skew = (\<lambda>p z y x. Complex (1/4) (1/4) * p ! 0 ! 0 ! 0)"
  by (simp_all add: skew_def)

lemmas eval_arr = ew1_def ew2_def add3_def sub3_def mul3_def neg3_def conj3_def scale3_def
  cscale3_def div3_def ravel_def sum3_def fwd_tomo_def adj_tomo_def toy_fwd_def toy_adj_def

lemma upt_2: "[0..<2] = [0, 1]" by (simp add: eval_nat_numeral)

lemma shape3_one_cell: "shape3 1 1 1 x \<longleftrightarrow> (\<exists>a. x = [[[a]]])"
  by (auto simp: shape3_def length_Suc_conv)

lemma shape3_two_cells: "shape3 2 1 1 x \<longleftrightarrow> (\<exists>a b. x = [[[a]], [[b]]])"
  by (auto simp: shape3_def length_Suc_conv numeral_2_eq_2)

subsection \<open>The step that the search returns\<close>

text \<open>
  Claim C4, as the code has it, in every arithmetic. A line search that returns,
  returns the start value halved \<open>k\<close> times, for the least \<open>k\<close> at which the test of the
  loop is false: the test is false at the returned step and true at each of the \<open>k\<close>
  steps tried before it. When halving never increases a step that is not below zero,
  and the start value is not below zero, the returned step is not above the start
  value, and no step of the halving sequence at which the test is false is above it.
  In exact arithmetic the test is false exactly when the step does not increase \<open>minf\<close>
  (\<open>loop_test_exact\<close>), and both the reals and the floating-point values have the
  property of halving (\<open>shrinking_exact\<close>, \<open>shrinking_ieee\<close>).
\<close>

theorem line_search_least_halving:
  assumes "line_search A mf g0 Ru Rd = Some g"
  shows "\<exists>k. g = (a_half A ^^ k) g0 \<and> \<not> loop_test A mf Ru Rd g \<and>
             (\<forall>j<k. loop_test A mf Ru Rd ((a_half A ^^ j) g0)) \<and>
             (shrinking le z (a_half A) \<and> le z g0 \<longrightarrow>
                le g g0 \<and>
                (\<forall>j. \<not> loop_test A mf Ru Rd ((a_half A ^^ j) g0) \<longrightarrow>
                     le ((a_half A ^^ j) g0) g))"
proof -
  from line_search_stopped [OF assms] obtain k where k: "g = (a_half A ^^ k) g0"
    "\<not> loop_test A mf Ru Rd g" "\<forall>j<k. loop_test A mf Ru Rd ((a_half A ^^ j) g0)"
    by blast
  have ordered: "le g g0 \<and>
      (\<forall>j. \<not> loop_test A mf Ru Rd ((a_half A ^^ j) g0) \<longrightarrow> le ((a_half A ^^ j) g0) g)"
    if sh: "shrinking le z (a_half A)" and pos: "le z g0"
  proof (intro conjI allI impI)
    show "le g g0"
      using shrinking_chain(2) [OF sh pos, of 0 k] k(1) by simp
  next
    fix j assume "\<not> loop_test A mf Ru Rd ((a_half A ^^ j) g0)"
    with k(3) have "k \<le> j" by (meson not_le_imp_less)
    then show "le ((a_half A ^^ j) g0) g"
      unfolding k(1) by (rule shrinking_chain(2) [OF sh pos])
  qed
  show ?thesis
    using k ordered by (intro exI [of _ k]) blast
qed

theorem line_search_least_halving_witness:
  "line_search exact (minf [[[1/4]]]) 1 [[[0]]] [[[1]]] = Some (1/2) \<and>
   shrinking (\<le>) (0::real) (a_half exact) \<and> (0::real) \<le> 1 \<and>
   (\<exists>k. (1/2::real) = (a_half exact ^^ k) 1 \<and>
        \<not> loop_test exact (minf [[[1/4]]]) [[[0]]] [[[1]]] (1/2) \<and>
        (\<forall>j<k. loop_test exact (minf [[[1/4]]]) [[[0]]] [[[1]]] ((a_half exact ^^ j) 1)) \<and>
        (1/2::real) \<le> 1 \<and>
        (\<forall>j. \<not> loop_test exact (minf [[[1/4]]]) [[[0]]] [[[1]]] ((a_half exact ^^ j) 1) \<longrightarrow>
             (a_half exact ^^ j) 1 \<le> (1/2::real)))"
proof -
  have run: "line_search exact (minf [[[1/4]]]) 1 [[[0]]] [[[1]]] = Some (1/2)"
    apply (subst line_search_unfold)
    apply (subst line_search_unfold)
    apply (simp add: non_increase_def minf_one_cell step_one_cell norm_divide power2_eq_square)
    done
  have pos: "(0::real) \<le> 1" by simp
  show ?thesis
    using line_search_least_halving [OF run, where le = "(\<le>)" and z = 0]
      run shrinking_exact pos
    by (simp only: simp_thms)
qed

text \<open>
  Two runs that the claim as stated does not cover. In floating-point arithmetic, with
  an objective that has overflowed to infinity, the difference \<open>inf - inf\<close> is NaN: the
  comparison \<^verbatim>\<open>< 0\<close> is false, the search returns its start value 1, and the difference
  at the returned step is not \<open>\<ge> 0\<close> either. In exact arithmetic, from the negative start
  value \<open>-1\<close> the search returns \<open>-1/2\<close>, which is above the start value.
\<close>

theorem line_search_nan_and_negative_start:
  "line_search ieee overflowed (Fin 1) [Fin 0] [Fin 1] = Some (Fin 1) \<and>
   \<not> fle (Fin 0)
       (a_sub ieee (overflowed [Fin 0])
          (overflowed (a_add ieee [Fin 0] (a_mul ieee (Fin 1) [Fin 1])))) \<and>
   line_search exact (minf [[[- (1/4)]]]) (- 1) [[[0]]] [[[1]]] = Some (- (1/2)) \<and>
   \<not> (- (1/2) \<le> (- 1 :: real))"
proof -
  have neg: "line_search exact (minf [[[- (1/4)]]]) (- 1) [[[0]]] [[[1]]] = Some (- (1/2))"
    apply (subst line_search_unfold)
    apply (subst line_search_unfold)
    apply (simp add: non_increase_def minf_one_cell step_one_cell norm_divide power2_eq_square)
    done
  show ?thesis
    using neg overflowed_run by (simp add: overflowed_def fsub_def)
qed

subsection \<open>A search that never returns\<close>

text \<open>
  Claim C5, in every arithmetic. When the test of the loop is true at every step of
  the halving sequence, the line search never returns. Such inputs exist in
  floating-point arithmetic: with the objective that is 0 at \<open>Ru = [0]\<close> and 1 elsewhere
  and the direction \<open>Rd = [inf]\<close>, the point \<open>Ru + gamma*Rd\<close> is \<open>[inf]\<close> for every positive
  step and \<open>[NaN]\<close> once the step has underflowed to 0 (\<open>fhalf_underflow\<close>), so it is
  never \<open>Ru\<close>, and the difference of the objective is \<open>-1\<close> in every round.
\<close>

theorem line_search_never_returns:
  assumes "\<forall>k. loop_test A mf Ru Rd ((a_half A ^^ k) g0)"
  shows "line_search A mf g0 Ru Rd = None"
  using assms by (rule line_search_loops)

theorem line_search_never_returns_witness:
  "(\<forall>k. loop_test ieee (only_at [Fin 0]) [Fin 0] [PInf] ((a_half ieee ^^ k) (Fin 1))) \<and>
   line_search ieee (only_at [Fin 0]) (Fin 1) [Fin 0] [PInf] = None"
  using line_search_never_returns [of ieee "only_at [Fin 0]" "[Fin 0]" "[PInf]" "Fin 1"]
  by (simp add: only_at_test)

section \<open>Index arrays and slices\<close>

lemma map_nth_upt: "hi \<le> length x \<Longrightarrow> map (\<lambda>i. x ! i) [lo..<hi] = take (hi - lo) (drop lo x)"
  by (rule nth_equalityI) auto

lemma take_ax0_upt:
  "hi \<le> length x \<Longrightarrow> take_ax0 (arange lo hi) x = Inr (slice_ax0 lo hi x)"
  by (simp add: take_ax0_def arange_def slice_ax0_def map_nth_upt)

lemma take_ax1_upt:
  "\<forall>p \<in> set x. hi \<le> length p \<Longrightarrow> take_ax1 (arange lo hi) x = Inr (slice_ax1 lo hi x)"
  by (auto simp: take_ax1_def arange_def slice_ax1_def slice_ax0_def map_nth_upt)

lemma put_ax0_upt:
  "lo + length val \<le> length res \<Longrightarrow>
   put_ax0 [lo..<lo + length val] val res = take lo res @ val @ drop (lo + length val) res"
proof (induction val arbitrary: lo res)
  case Nil
  then show ?case by (simp add: put_ax0_def)
next
  case (Cons v val)
  have ids: "[lo..<lo + length (v # val)] = lo # [Suc lo..<Suc lo + length val]"
    using upt_conv_Cons [of lo "lo + length (v # val)"] by (simp del: upt_Suc)
  have len: "Suc lo + length val \<le> length (res[lo := v])"
    using Cons.prems by simp
  have "put_ax0 [lo..<lo + length (v # val)] (v # val) res =
        put_ax0 [Suc lo..<Suc lo + length val] val (res[lo := v])"
    unfolding ids by (simp add: put_ax0_def)
  also have "\<dots> = take (Suc lo) (res[lo := v]) @ val @ drop (Suc lo + length val) (res[lo := v])"
    using Cons.IH [OF len] .
  also have "take (Suc lo) (res[lo := v]) = take lo res @ [v]"
    using Cons.prems by (simp add: take_Suc_conv_app_nth)
  also have "drop (Suc lo + length val) (res[lo := v]) = drop (lo + length (v # val)) res"
    by simp
  finally show ?case by simp
qed

lemma put_ax0_arange:
  "length val = hi - lo \<Longrightarrow> lo \<le> hi \<Longrightarrow> hi \<le> length res \<Longrightarrow>
   put_ax0 (arange lo hi) val res = take lo res @ val @ drop hi res"
  using put_ax0_upt [of lo val res] by (simp add: arange_def)

lemma fold_update_length:
  "length (fold (\<lambda>(i, v) r. r[i := v]) ps res) = length res"
  by (induction ps arbitrary: res) (auto simp: split_def)

lemma fold_update_nth_other:
  "j \<notin> fst ` set ps \<Longrightarrow> fold (\<lambda>(i, v) r. r[i := v]) ps res ! j = res ! j"
  by (induction ps arbitrary: res) (auto simp: split_def)

lemma length_put_ax0 [simp]: "length (put_ax0 ids val res) = length res"
  by (simp add: put_ax0_def fold_update_length)

lemma put_ax0_nth_other: "j \<notin> set ids \<Longrightarrow> put_ax0 ids val res ! j = res ! j"
  unfolding put_ax0_def
  by (rule fold_update_nth_other) (auto dest: set_zip_leftD)

lemma put_ax0_drop:
  assumes "\<forall>i \<in> set ids. i < m"
  shows "drop m (put_ax0 ids val res) = drop m res"
proof (rule nth_equalityI)
  show "length (drop m (put_ax0 ids val res)) = length (drop m res)" by simp
next
  fix j assume "j < length (drop m (put_ax0 ids val res))"
  then have j: "m + j < length res" by simp
  have "m + j \<notin> set ids" using assms by fastforce
  then have "put_ax0 ids val res ! (m + j) = res ! (m + j)"
    by (rule put_ax0_nth_other)
  then show "drop m (put_ax0 ids val res) ! j = drop m res ! j"
    using j by simp
qed

lemma put_ax0_same_slice:
  assumes "lo \<le> hi" "hi \<le> length x"
  shows "put_ax0 (arange lo hi) (slice_ax0 lo hi x) x = x"
proof -
  have "put_ax0 (arange lo hi) (slice_ax0 lo hi x) x =
        take lo x @ slice_ax0 lo hi x @ drop hi x"
    using assms by (intro put_ax0_arange) (simp_all add: slice_ax0_def)
  also have "\<dots> = take lo x @ drop lo x"
  proof -
    have "drop hi x = drop (hi - lo) (drop lo x)" using assms(1) by simp
    then have "slice_ax0 lo hi x @ drop hi x = drop lo x"
      unfolding slice_ax0_def by (simp only: append_take_drop_id)
    then show ?thesis by simp
  qed
  finally show ?thesis by simp
qed

lemma slice_ax0_put_later:
  assumes "hi \<le> lo'"
  shows "slice_ax0 lo' hi' (put_ax0 (arange lo hi) v x) = slice_ax0 lo' hi' x"
proof -
  have "\<forall>i \<in> set (arange lo hi). i < lo'" using assms by (auto simp: arange_def)
  then have "drop lo' (put_ax0 (arange lo hi) v x) = drop lo' x" by (rule put_ax0_drop)
  then show ?thesis by (simp add: slice_ax0_def)
qed

lemma slice_ax0_take: "hi \<le> m \<Longrightarrow> slice_ax0 lo hi (take m x) = slice_ax0 lo hi x"
  by (simp add: slice_ax0_def drop_take min_def)

lemma slice_ax0_take_eq:
  "hi \<le> m \<Longrightarrow> take m x' = take m x \<Longrightarrow> slice_ax0 lo hi x' = slice_ax0 lo hi x"
  by (metis slice_ax0_take)

lemma slice_ax1_take_eq:
  assumes "hi \<le> m" "map (take m) x' = map (take m) x"
  shows "slice_ax1 lo hi x' = slice_ax1 lo hi x"
proof -
  have eq: "slice_ax1 lo hi y = map (slice_ax0 lo hi) (map (take m) y)" for y :: "'a list list"
    using assms(1) by (simp add: slice_ax1_def slice_ax0_take)
  show ?thesis unfolding eq [of x'] eq [of x] by (simp only: assms(2))
qed

lemma length_concat_blocks:
  "\<forall>k<K. length (A k) = m \<Longrightarrow> length (concat (map A [0..<K])) = K * m"
  by (induction K) simp_all

text \<open>Block k of a concatenation of blocks of equal length.\<close>

lemma concat_blocks_slice:
  assumes "\<forall>i<K. length (B i) = m" "k < K"
  shows "take m (drop (k * m) (concat (map B [0..<K]) @ rest)) = B k"
  using assms
proof (induction K arbitrary: rest)
  case 0
  then show ?case by simp
next
  case (Suc K)
  have len: "length (concat (map B [0..<K])) = K * m"
    using Suc.prems(1) by (induction K) simp_all
  show ?case
  proof (cases "k < K")
    case True
    have "take m (drop (k * m) (concat (map B [0..<K]) @ (B K @ rest))) = B k"
      using Suc.prems(1) True Suc.IH [of "B K @ rest"] by simp
    then show ?thesis by simp
  next
    case False
    with Suc.prems(2) have "k = K" by simp
    then show ?thesis using len Suc.prems(1) by simp
  qed
qed

lemma concat_slices_take:
  "K * m \<le> length x \<Longrightarrow>
   concat (map (\<lambda>k. slice_ax0 (k * m) ((k + 1) * m) x) [0..<K]) = take (K * m) x"
proof (induction K)
  case 0
  then show ?case by simp
next
  case (Suc K)
  then have "concat (map (\<lambda>k. slice_ax0 (k * m) ((k + 1) * m) x) [0..<K]) = take (K * m) x"
    by simp
  moreover have "slice_ax0 (K * m) ((K + 1) * m) x = take m (drop (K * m) x)"
    by (simp add: slice_ax0_def)
  moreover have "take (Suc K * m) x = take (K * m) x @ take m (drop (K * m) x)"
    using take_add [of "K * m" m x] by (simp add: add.commute)
  ultimately show ?case by simp
qed

lemma concat_slices:
  "length x = K * m \<Longrightarrow> concat (map (\<lambda>k. slice_ax0 (k * m) ((k + 1) * m) x) [0..<K]) = x"
  using concat_slices_take [of K m x] by simp

section \<open>Shapes\<close>

lemma length_fwd_tomo [simp]: "length (fwd_tomo s u) = ntheta s"
  by (simp add: fwd_tomo_def)

lemma length_adj_tomo [simp]: "length (adj_tomo s p) = pnz s"
  by (simp add: adj_tomo_def)

lemma length_fwd_tomo_nth [simp]: "t < ntheta s \<Longrightarrow> length (fwd_tomo s u ! t) = pnz s"
  by (simp add: fwd_tomo_def)



lemma shape3_zeros3: "shape3 a b c (zeros3 a b c)"
  by (auto simp: shape3_def zeros3_def)

lemma length_ew1 [simp]: "length (ew1 f x) = length x"
  by (simp add: ew1_def)

lemma length_ew2 [simp]: "length (ew2 f x y) = min (length x) (length y)"
  by (simp add: ew2_def)



lemma shape3_slice_ax0:
  assumes "shape3 a b c x" "hi \<le> a" "lo \<le> hi"
  shows "shape3 (hi - lo) b c (slice_ax0 lo hi x)"
  using assms by (auto simp: shape3_def slice_ax0_def dest!: in_set_takeD in_set_dropD)

lemma shape3_slice_ax1:
  assumes "shape3 a b c x" "hi \<le> b" "lo \<le> hi"
  shows "shape3 a (hi - lo) c (slice_ax1 lo hi x)"
  using assms by (auto simp: shape3_def slice_ax1_def slice_ax0_def dest!: in_set_takeD in_set_dropD)

section \<open>The batched transforms\<close>

lemma covered_le: "covered s \<le> nz s"
  by (simp add: covered_def)

lemma covered_rest: "nz s - covered s = nz s mod pnz s"
  by (simp add: covered_def minus_div_mult_eq_mod)

lemma partition_le_covered: "k < nz s div pnz s \<Longrightarrow> (k + 1) * pnz s \<le> covered s"
  unfolding covered_def by (intro mult_le_mono1) simp

lemma partition_le_nz: "k < nz s div pnz s \<Longrightarrow> (k + 1) * pnz s \<le> nz (s::solver)"
  using partition_le_covered [of k s] covered_le [of s] by linarith

subsection \<open>The loops as folds\<close>

lemma fwd_batch_loop_fold:
  "\<forall>k \<in> set ks. (k + 1) * pnz s \<le> length u \<Longrightarrow>
   fwd_batch_loop s u ks res = Inr (fold (fwd_step s u) ks res)"
  by (induction ks arbitrary: res) (simp_all add: take_ax0_upt fwd_step_def Let_def)

lemma fwd_batch_loop_error:
  "fwd_batch_loop s u ks res = Inl e \<Longrightarrow> e = IndexError"
  by (induction ks arbitrary: res)
     (auto simp: Let_def take_ax0_def split: sum.splits if_splits)

lemma length_fwd_rows: "t < ntheta s \<Longrightarrow> length (fwd_rows s u j t) = j * pnz s"
  by (induction j) (simp_all add: fwd_rows_def)

lemma fwd_fold_rows:
  assumes "length res = ntheta s" "\<forall>p \<in> set res. j * pnz s \<le> length p"
  shows "fold (fwd_step s u) [0..<j] res =
         map (\<lambda>t. fwd_rows s u j t @ drop (j * pnz s) (res ! t)) [0..<ntheta s]"
  using assms
proof (induction j)
  case 0
  have "map (\<lambda>t. res ! t) [0..<length res] = res" by (rule map_nth)
  with 0 show ?case by (simp add: fwd_rows_def)
next
  case (Suc j)
  have le: "\<forall>p \<in> set res. j * pnz s \<le> length p"
    using Suc.prems(2) by auto
  let ?U = "fwd_tomo s (slice_ax0 (j * pnz s) ((j + 1) * pnz s) u)"
  let ?prev = "map (\<lambda>t. fwd_rows s u j t @ drop (j * pnz s) (res ! t)) [0..<ntheta s]"
  have prev: "fold (fwd_step s u) [0..<j] res = ?prev"
    using Suc.IH [OF Suc.prems(1) le] .
  have "fold (fwd_step s u) [0..<Suc j] res = fwd_step s u j ?prev"
    using prev by simp
  also have "\<dots> = map (\<lambda>t. fwd_rows s u (Suc j) t @ drop (Suc j * pnz s) (res ! t)) [0..<ntheta s]"
  proof (rule nth_equalityI)
    show "length (fwd_step s u j ?prev) =
          length (map (\<lambda>t. fwd_rows s u (Suc j) t @ drop (Suc j * pnz s) (res ! t)) [0..<ntheta s])"
      by (simp add: fwd_step_def put_ax1_def)
  next
    fix t assume "t < length (fwd_step s u j ?prev)"
    then have t: "t < ntheta s" by (simp add: fwd_step_def put_ax1_def)
    then have "res ! t \<in> set res" using Suc.prems(1) by simp
    then have len: "Suc j * pnz s \<le> length (res ! t)" using Suc.prems(2) by blast
    have "fwd_step s u j ?prev ! t =
          put_ax0 (arange (j * pnz s) ((j + 1) * pnz s)) (?U ! t)
            (fwd_rows s u j t @ drop (j * pnz s) (res ! t))"
      using t by (simp add: fwd_step_def put_ax1_def)
    also have "\<dots> = take (j * pnz s) (fwd_rows s u j t @ drop (j * pnz s) (res ! t)) @ ?U ! t @
                     drop ((j + 1) * pnz s) (fwd_rows s u j t @ drop (j * pnz s) (res ! t))"
      using t len by (intro put_ax0_arange) (simp_all add: length_fwd_rows)
    also have "\<dots> = (fwd_rows s u j t @ ?U ! t) @ drop (Suc j * pnz s) (res ! t)"
      using t by (simp add: length_fwd_rows add.commute)
    also have "fwd_rows s u j t @ ?U ! t = fwd_rows s u (Suc j) t"
      by (simp add: fwd_rows_def)
    finally show "fwd_step s u j ?prev ! t =
        map (\<lambda>t. fwd_rows s u (Suc j) t @ drop (Suc j * pnz s) (res ! t)) [0..<ntheta s] ! t"
      using t by simp
  qed
  finally show ?case .
qed

lemma fwd_tomo_batch_rows:
  assumes "0 < pnz s" "(nz s div pnz s) * pnz s \<le> length u"
  shows "fwd_tomo_batch s u =
         Inr (map (\<lambda>t. fwd_rows s u (nz s div pnz s) t @
                        replicate (nz s - (nz s div pnz s) * pnz s) (replicate (n s) 0))
                [0..<ntheta s])"
proof -
  let ?K = "nz s div pnz s"
  have le: "?K * pnz s \<le> nz s" by simp
  have ks: "\<forall>k \<in> set [0..<?K]. (k + 1) * pnz s \<le> length u"
  proof
    fix k assume "k \<in> set [0..<?K]"
    then have "k + 1 \<le> ?K" by simp
    then have "(k + 1) * pnz s \<le> ?K * pnz s" by (rule mult_le_mono1)
    with assms(2) show "(k + 1) * pnz s \<le> length u" by linarith
  qed
  have "fwd_tomo_batch s u = Inr (fold (fwd_step s u) [0..<?K] (zeros3 (ntheta s) (nz s) (n s)))"
    using assms(1) by (simp add: fwd_tomo_batch_def fwd_batch_loop_fold [OF ks])
  also have "fold (fwd_step s u) [0..<?K] (zeros3 (ntheta s) (nz s) (n s)) =
        map (\<lambda>t. fwd_rows s u ?K t @ drop (?K * pnz s) (zeros3 (ntheta s) (nz s) (n s) ! t))
          [0..<ntheta s]"
    using le by (intro fwd_fold_rows) (auto simp: zeros3_def)
  also have "\<dots> = map (\<lambda>t. fwd_rows s u ?K t @
                        replicate (nz s - ?K * pnz s) (replicate (n s) 0)) [0..<ntheta s]"
    by (simp add: zeros3_def)
  finally show ?thesis .
qed

lemma adj_batch_loop_fold:
  "\<forall>k \<in> set ks. \<forall>p \<in> set data. (k + 1) * pnz s \<le> length p \<Longrightarrow>
   adj_batch_loop s data ks res = Inr (fold (adj_step s data) ks res)"
proof (induction ks arbitrary: res)
  case Nil
  then show ?case by simp
next
  case (Cons k ks)
  have "\<forall>p \<in> set data. (k + 1) * pnz s \<le> length p" using Cons.prems by simp
  then have "take_ax1 (arange (k * pnz s) ((k + 1) * pnz s)) data =
             Inr (slice_ax1 (k * pnz s) ((k + 1) * pnz s) data)"
    by (rule take_ax1_upt)
  moreover have "adj_batch_loop s data ks r = Inr (fold (adj_step s data) ks r)" for r
    using Cons.prems by (intro Cons.IH) simp
  ultimately show ?case unfolding adj_step_def by (simp add: Let_def)
qed

lemma length_adj_blocks: "length (adj_blocks s data j) = j * pnz s"
  by (induction j) (simp_all add: adj_blocks_def)

lemma adj_fold_blocks:
  "j * pnz s \<le> length res \<Longrightarrow>
   fold (adj_step s data) [0..<j] res = adj_blocks s data j @ drop (j * pnz s) res"
proof (induction j)
  case 0
  then show ?case by (simp add: adj_blocks_def)
next
  case (Suc j)
  let ?A = "adj_tomo s (slice_ax1 (j * pnz s) ((j + 1) * pnz s) data)"
  have le: "j * pnz s \<le> length res" using Suc.prems by simp
  have "fold (adj_step s data) [0..<Suc j] res =
        adj_step s data j (adj_blocks s data j @ drop (j * pnz s) res)"
    using Suc.IH [OF le] by simp
  also have "\<dots> = take (j * pnz s) (adj_blocks s data j @ drop (j * pnz s) res) @ ?A @
                   drop ((j + 1) * pnz s) (adj_blocks s data j @ drop (j * pnz s) res)"
    unfolding adj_step_def using Suc.prems
    by (intro put_ax0_arange) (simp_all add: length_adj_blocks)
  also have "\<dots> = (adj_blocks s data j @ ?A) @ drop (Suc j * pnz s) res"
    by (simp add: length_adj_blocks add.commute)
  also have "adj_blocks s data j @ ?A = adj_blocks s data (Suc j)"
    by (simp add: adj_blocks_def)
  finally show ?case .
qed

lemma adj_tomo_batch_blocks:
  assumes "0 < pnz s" "\<forall>p \<in> set data. (nz s div pnz s) * pnz s \<le> length p"
  shows "adj_tomo_batch s data =
         Inr (adj_blocks s data (nz s div pnz s) @
              replicate (nz s - (nz s div pnz s) * pnz s) (replicate (n s) (replicate (n s) 0)))"
proof -
  let ?K = "nz s div pnz s"
  have ks: "\<forall>k \<in> set [0..<?K]. \<forall>p \<in> set data. (k + 1) * pnz s \<le> length p"
  proof (intro ballI)
    fix k p assume "k \<in> set [0..<?K]" and p: "p \<in> set data"
    then have "k + 1 \<le> ?K" by simp
    then have "(k + 1) * pnz s \<le> ?K * pnz s" by (rule mult_le_mono1)
    with assms(2) p show "(k + 1) * pnz s \<le> length p" by fastforce
  qed
  have "adj_tomo_batch s data = Inr (fold (adj_step s data) [0..<?K] (zeros3 (nz s) (n s) (n s)))"
    using assms(1) by (simp add: adj_tomo_batch_def adj_batch_loop_fold [OF ks])
  also have "fold (adj_step s data) [0..<?K] (zeros3 (nz s) (n s) (n s)) =
             adj_blocks s data ?K @ drop (?K * pnz s) (zeros3 (nz s) (n s) (n s))"
    by (intro adj_fold_blocks) (simp add: zeros3_def)
  finally show ?thesis by (simp add: zeros3_def)
qed

lemma slice_ax0_fwd_rows:
  assumes "t < ntheta s" "k < j"
  shows "slice_ax0 (k * pnz s) ((k + 1) * pnz s) (fwd_rows s u j t @ rest) =
         fwd_tomo s (slice_ax0 (k * pnz s) ((k + 1) * pnz s) u) ! t"
  unfolding slice_ax0_def fwd_rows_def
  using concat_blocks_slice
    [of j "\<lambda>k. fwd_tomo s (take ((k + 1) * pnz s - k * pnz s) (drop (k * pnz s) u)) ! t" "pnz s" k rest]
    assms
  by simp

subsection \<open>Partition equivalence\<close>

text \<open>
  Claim C2. For a volume whose depth \<open>nz\<close> is a multiple of the partition size,
  \<open>fwd_tomo_batch\<close> returns an array of shape (ntheta, nz, n) whose slice
  \<open>[:, k*pnz:(k+1)*pnz]\<close> is \<open>fwd_tomo\<close> of the depth partition \<open>u[k*pnz:(k+1)*pnz]\<close>, for
  every partition \<open>k\<close>.
\<close>

theorem fwd_tomo_batch_partitions:
  assumes "0 < pnz s" "pnz s dvd nz s" "length u = nz s" "k < nz s div pnz s"
  shows "\<exists>res. fwd_tomo_batch s u = Inr res \<and> shape3 (ntheta s) (nz s) (n s) res \<and>
           slice_ax1 (k * pnz s) ((k + 1) * pnz s) res =
           fwd_tomo s (slice_ax0 (k * pnz s) ((k + 1) * pnz s) u)"
proof -
  let ?K = "nz s div pnz s"
  let ?res = "map (\<lambda>t. fwd_rows s u ?K t @ replicate (nz s - ?K * pnz s) (replicate (n s) 0))
                [0..<ntheta s]"
  have run: "fwd_tomo_batch s u = Inr ?res"
    using assms(1,3) by (intro fwd_tomo_batch_rows) simp_all
  have sl: "slice_ax1 (k * pnz s) ((k + 1) * pnz s) ?res =
            fwd_tomo s (slice_ax0 (k * pnz s) ((k + 1) * pnz s) u)"
  proof (rule nth_equalityI)
    show "length (slice_ax1 (k * pnz s) ((k + 1) * pnz s) ?res) =
          length (fwd_tomo s (slice_ax0 (k * pnz s) ((k + 1) * pnz s) u))"
      by (simp add: slice_ax1_def)
  next
    fix t assume "t < length (slice_ax1 (k * pnz s) ((k + 1) * pnz s) ?res)"
    then have t: "t < ntheta s" by (simp add: slice_ax1_def)
    then show "slice_ax1 (k * pnz s) ((k + 1) * pnz s) ?res ! t =
               fwd_tomo s (slice_ax0 (k * pnz s) ((k + 1) * pnz s) u) ! t"
      using slice_ax0_fwd_rows [OF t assms(4)] by (simp add: slice_ax1_def)
  qed
  have rows: "\<forall>r \<in> set (fwd_rows s u j t). length r = n s" if "t < ntheta s" for j t
    using that by (auto simp: fwd_rows_def fwd_tomo_def)
  have sh: "shape3 (ntheta s) (nz s) (n s) ?res"
    using rows by (auto simp: shape3_def length_fwd_rows)
  show ?thesis using run sl sh by blast
qed

theorem fwd_tomo_batch_partitions_witness:
  "0 < pnz (toy 2 4 1 2) \<and> pnz (toy 2 4 1 2) dvd nz (toy 2 4 1 2) \<and>
   length [[[1]], [[2]], [[3]], [[4::complex]]] = nz (toy 2 4 1 2) \<and>
   1 < nz (toy 2 4 1 2) div pnz (toy 2 4 1 2) \<and>
   (\<exists>res. fwd_tomo_batch (toy 2 4 1 2) [[[1]], [[2]], [[3]], [[4]]] = Inr res \<and>
      shape3 2 4 1 res \<and>
      slice_ax1 2 4 res = fwd_tomo (toy 2 4 1 2) (slice_ax0 2 4 [[[1]], [[2]], [[3]], [[4]]]))"
  using fwd_tomo_batch_partitions [of "toy 2 4 1 2" "[[[1]], [[2]], [[3]], [[4]]]" 1]
  by simp

subsection \<open>Adjoint consistency\<close>

lemma ip1_code: "sum_list (map2 (*) (map cnj r) t) = ip1 r t"
proof (induction r arbitrary: t)
  case Nil
  then show ?case by (simp add: ip1_def)
next
  case (Cons x r)
  then show ?case by (cases t) (simp_all add: ip1_def)
qed

lemma ip2_code: "sum_list (concat (map2 (map2 (*)) (map (map cnj) p) q)) = ip2 p q"
proof (induction p arbitrary: q)
  case Nil
  then show ?case by (simp add: ip2_def)
next
  case (Cons r p)
  show ?case
  proof (cases q)
    case Nil
    then show ?thesis by (simp add: ip2_def)
  next
    case (Cons t q')
    with Cons.IH [of q'] show ?thesis by (simp add: ip2_def ip1_code)
  qed
qed

lemma ip3_code:
  "sum_list (concat (concat (map2 (map2 (map2 (*))) (map (map (map cnj)) a) b))) = ip3 a b"
proof (induction a arbitrary: b)
  case Nil
  then show ?case by (simp add: ip3_def)
next
  case (Cons p a)
  show ?case
  proof (cases b)
    case Nil
    then show ?thesis by (simp add: ip3_def)
  next
    case (Cons q b')
    with Cons.IH [of b'] show ?thesis by (simp add: ip3_def ip2_code)
  qed
qed

lemma inner3_ip3: "inner3 a b = ip3 a b"
  using ip3_code [of a b]
  by (simp add: inner3_def sum3_def ravel_def mul3_def conj3_def ew1_def ew2_def)

lemma sum_map2_upt:
  "sum_list (map2 g (map F [0..<N]) (map G [0..<N])) = sum_list (map (\<lambda>t. g (F t) (G t)) [0..<N])"
  by (simp add: zip_map_map zip_same_conv_map o_def)

lemma sum_map2_blocks:
  assumes "\<forall>k<K. length (A k) = m" "\<forall>k<K. length (B k) = m"
  shows "sum_list (map2 g (concat (map A [0..<K])) (concat (map B [0..<K]))) =
         sum_list (map (\<lambda>k. sum_list (map2 g (A k) (B k))) [0..<K])"
  using assms
proof (induction K)
  case 0
  then show ?case by simp
next
  case (Suc K)
  have len: "length (concat (map A [0..<K])) = length (concat (map B [0..<K]))"
    using Suc.prems by (simp add: length_concat_blocks [of K _ m])
  have "sum_list (map2 g (concat (map A [0..<K])) (concat (map B [0..<K]))) =
        sum_list (map (\<lambda>k. sum_list (map2 g (A k) (B k))) [0..<K])"
    using Suc.prems by (intro Suc.IH) simp_all
  then show ?case using len by (simp add: zip_append)
qed

lemma sum_list_upt_swap:
  fixes f :: "nat \<Rightarrow> nat \<Rightarrow> complex"
  shows "sum_list (map (\<lambda>t. sum_list (map (\<lambda>k. f t k) [0..<K])) [0..<N]) =
         sum_list (map (\<lambda>k. sum_list (map (\<lambda>t. f t k) [0..<N])) [0..<K])"
  unfolding interv_sum_list_conv_sum_set_nat by (rule sum.swap)

lemma sum_list_upt_cong:
  "(\<And>k. k < K \<Longrightarrow> f k = g k) \<Longrightarrow> sum_list (map f [0..<K]) = sum_list (map g [0..<K])"
  by (rule arg_cong [where f = sum_list]) simp

lemma toy_adjoint: "adjoint_pair (toy 2 2 1 1)"
  unfolding adjoint_pair_def
proof (intro allI impI, elim conjE)
  fix u p :: arr3
  assume "shape3 (pnz (toy 2 2 1 1)) (n (toy 2 2 1 1)) (n (toy 2 2 1 1)) u"
    and "shape3 (ntheta (toy 2 2 1 1)) (pnz (toy 2 2 1 1)) (n (toy 2 2 1 1)) p"
  then obtain a b c where "u = [[[a]]]" "p = [[[b]], [[c]]]"
    using shape3_one_cell shape3_two_cells by auto
  then show "inner3 (fwd_tomo (toy 2 2 1 1) u) p = inner3 u (adj_tomo (toy 2 2 1 1) p)"
    by (simp add: inner3_def eval_arr upt_2 algebra_simps)
qed

text \<open>
  Claim C8. If the transforms of one partition are adjoint consistent and \<open>nz\<close> is a
  multiple of \<open>pnz\<close>, then for every \<open>u\<close> of shape (nz, n, n) and \<open>p\<close> of shape
  (ntheta, nz, n) both batched transforms return and
  \<open>\<langle>fwd_tomo_batch u, p\<rangle> = \<langle>u, adj_tomo_batch p\<rangle>\<close>.
\<close>

theorem batch_adjoint_consistency:
  assumes pos: "0 < pnz s" and dvd: "pnz s dvd nz s" and adj: "adjoint_pair s"
    and u: "shape3 (nz s) (n s) (n s) u" and p: "shape3 (ntheta s) (nz s) (n s) p"
  shows "\<exists>Ru Ap. fwd_tomo_batch s u = Inr Ru \<and> adj_tomo_batch s p = Inr Ap \<and>
           inner3 Ru p = inner3 u Ap"
proof -
  let ?K = "nz s div pnz s"
  let ?U = "\<lambda>k. slice_ax0 (k * pnz s) ((k + 1) * pnz s) u"
  let ?P = "\<lambda>k. slice_ax1 (k * pnz s) ((k + 1) * pnz s) p"
  let ?F = "\<lambda>k. fwd_tomo s (?U k)"
  let ?A = "\<lambda>k. adj_tomo s (?P k)"
  let ?Ru = "map (\<lambda>t. fwd_rows s u ?K t) [0..<ntheta s]"
  let ?Ap = "adj_blocks s p ?K"
  have nz: "?K * pnz s = nz s" using dvd by simp
  have lenu: "length u = nz s" and lenp: "length p = ntheta s"
    and rowsp: "\<forall>q \<in> set p. length q = nz s"
    using u p by (simp_all add: shape3_def)
  have part: "(k + 1) * pnz s \<le> nz s" if "k < ?K" for k
    using partition_le_nz [OF that] .
  have run_f: "fwd_tomo_batch s u = Inr ?Ru"
    using fwd_tomo_batch_rows [of s u] pos lenu nz by simp
  have run_a: "adj_tomo_batch s p = Inr ?Ap"
    using adj_tomo_batch_blocks [of s p] pos rowsp nz by simp
  have shU: "shape3 (pnz s) (n s) (n s) (?U k)" if "k < ?K" for k
    using shape3_slice_ax0 [OF u part [OF that], of "k * pnz s"] by simp
  have shP: "shape3 (ntheta s) (pnz s) (n s) (?P k)" if "k < ?K" for k
    using shape3_slice_ax1 [OF p part [OF that], of "k * pnz s"] by simp
  have mid: "ip3 (?F k) (?P k) = ip3 (?U k) (?A k)" if "k < ?K" for k
    using adj shU [OF that] shP [OF that] unfolding adjoint_pair_def inner3_ip3 by blast
  have blk: "ip3 (?F k) (?P k) = sum_list (map (\<lambda>t. ip2 (?F k ! t) (?P k ! t)) [0..<ntheta s])"
    for k
  proof -
    have f: "?F k = map (\<lambda>t. ?F k ! t) [0..<ntheta s]"
      using map_nth [of "?F k"] by simp
    have "length (?P k) = ntheta s" using lenp by (simp add: slice_ax1_def)
    then have q: "?P k = map (\<lambda>t. ?P k ! t) [0..<ntheta s]"
      using map_nth [of "?P k"] by simp
    have "ip3 (?F k) (?P k) =
          sum_list (map2 ip2 (map (\<lambda>t. ?F k ! t) [0..<ntheta s]) (map (\<lambda>t. ?P k ! t) [0..<ntheta s]))"
      unfolding ip3_def using f q by simp
    then show ?thesis by (simp only: sum_map2_upt)
  qed
  have row: "ip2 (fwd_rows s u ?K t) (p ! t) =
             sum_list (map (\<lambda>k. ip2 (?F k ! t) (?P k ! t)) [0..<?K])" if t: "t < ntheta s" for t
  proof -
    have pt: "p ! t \<in> set p" using t lenp by simp
    then have len: "length (p ! t) = ?K * pnz s" using rowsp nz by simp
    let ?Q = "\<lambda>k. slice_ax0 (k * pnz s) ((k + 1) * pnz s) (p ! t)"
    have cat: "concat (map ?Q [0..<?K]) = p ! t" using len by (rule concat_slices)
    have lq: "\<forall>k<?K. length (?Q k) = pnz s"
    proof (intro allI impI)
      fix k assume "k < ?K"
      from part [OF this] len nz show "length (?Q k) = pnz s"
        by (simp add: slice_ax0_def)
    qed
    have lf: "\<forall>k<?K. length (?F k ! t) = pnz s" using t by simp
    have "ip2 (fwd_rows s u ?K t) (p ! t) =
          sum_list (map2 ip1 (concat (map (\<lambda>k. ?F k ! t) [0..<?K])) (concat (map ?Q [0..<?K])))"
      unfolding ip2_def fwd_rows_def cat ..
    also have "\<dots> = sum_list (map (\<lambda>k. sum_list (map2 ip1 (?F k ! t) (?Q k))) [0..<?K])"
      using lf lq by (rule sum_map2_blocks)
    also have "\<dots> = sum_list (map (\<lambda>k. ip2 (?F k ! t) (?P k ! t)) [0..<?K])"
      using t lenp by (simp add: ip2_def slice_ax1_def)
    finally show ?thesis .
  qed
  have left: "ip3 ?Ru p = sum_list (map (\<lambda>k. ip3 (?F k) (?P k)) [0..<?K])"
  proof -
    have pmap: "map (\<lambda>t. p ! t) [0..<ntheta s] = p"
      using map_nth [of p] lenp by simp
    have "ip3 ?Ru p = sum_list (map2 ip2 ?Ru (map (\<lambda>t. p ! t) [0..<ntheta s]))"
      unfolding ip3_def pmap ..
    also have "\<dots> = sum_list (map (\<lambda>t. ip2 (fwd_rows s u ?K t) (p ! t)) [0..<ntheta s])"
      by (rule sum_map2_upt)
    also have "\<dots> = sum_list (map (\<lambda>t. sum_list (map (\<lambda>k. ip2 (?F k ! t) (?P k ! t)) [0..<?K]))
                        [0..<ntheta s])"
      by (rule sum_list_upt_cong) (rule row)
    also have "\<dots> = sum_list (map (\<lambda>k. sum_list (map (\<lambda>t. ip2 (?F k ! t) (?P k ! t))
                        [0..<ntheta s])) [0..<?K])"
      by (rule sum_list_upt_swap)
    also have "\<dots> = sum_list (map (\<lambda>k. ip3 (?F k) (?P k)) [0..<?K])"
      by (simp only: blk)
    finally show ?thesis .
  qed
  have right: "ip3 u ?Ap = sum_list (map (\<lambda>k. ip3 (?U k) (?A k)) [0..<?K])"
  proof -
    have cat: "concat (map ?U [0..<?K]) = u"
      using lenu nz by (intro concat_slices) simp
    have lu: "\<forall>k<?K. length (?U k) = pnz s"
      using shU by (simp add: shape3_def)
    have la: "\<forall>k<?K. length (?A k) = pnz s" by simp
    have "ip3 u ?Ap = sum_list (map2 ip2 (concat (map ?U [0..<?K])) (concat (map ?A [0..<?K])))"
      unfolding ip3_def adj_blocks_def cat ..
    also have "\<dots> = sum_list (map (\<lambda>k. sum_list (map2 ip2 (?U k) (?A k))) [0..<?K])"
      using lu la by (rule sum_map2_blocks)
    finally show ?thesis by (simp only: ip3_def)
  qed
  have "ip3 ?Ru p = ip3 u ?Ap"
    unfolding left right by (rule sum_list_upt_cong) (rule mid)
  then have "inner3 ?Ru p = inner3 u ?Ap" by (simp only: inner3_ip3)
  with run_f run_a show ?thesis by blast
qed

theorem batch_adjoint_consistency_witness:
  "0 < pnz (toy 2 2 1 1) \<and> pnz (toy 2 2 1 1) dvd nz (toy 2 2 1 1) \<and>
   adjoint_pair (toy 2 2 1 1) \<and>
   shape3 2 1 1 [[[1]], [[\<i>]]] \<and> shape3 2 2 1 [[[1], [2]], [[3], [4]]] \<and>
   (\<exists>Ru Ap. fwd_tomo_batch (toy 2 2 1 1) [[[1]], [[\<i>]]] = Inr Ru \<and>
      adj_tomo_batch (toy 2 2 1 1) [[[1], [2]], [[3], [4]]] = Inr Ap \<and>
      inner3 Ru [[[1], [2]], [[3], [4]]] = inner3 [[[1]], [[\<i>]]] Ap)"
proof -
  have pos: "0 < pnz (toy 2 2 1 1)" and dvd: "pnz (toy 2 2 1 1) dvd nz (toy 2 2 1 1)"
    by simp_all
  have u: "shape3 (nz (toy 2 2 1 1)) (n (toy 2 2 1 1)) (n (toy 2 2 1 1)) [[[1]], [[\<i>]]]"
    by (simp add: shape3_def)
  have p: "shape3 (ntheta (toy 2 2 1 1)) (nz (toy 2 2 1 1)) (n (toy 2 2 1 1))
             [[[1], [2]], [[3], [4]]]"
    by (simp add: shape3_def)
  from batch_adjoint_consistency [OF pos dvd toy_adjoint u p] pos dvd toy_adjoint u p
  show ?thesis by simp
qed

section \<open>The loop of cg_tomo\<close>

lemma cg_tomo_zero [simp]: "cg_tomo s xi0 u 0 = Some u"
  by (simp add: cg_tomo_def)

lemma cg_loop_append:
  "cg_loop s xi0 (xs @ ys) st =
     (case cg_loop s xi0 xs st of None \<Rightarrow> None | Some st' \<Rightarrow> cg_loop s xi0 ys st')"
  by (induction xs arbitrary: st) (auto split: option.splits)

lemma cg_loop_Suc:
  "cg_loop s xi0 [0..<Suc i] st =
     (case cg_loop s xi0 [0..<i] st of None \<Rightarrow> None | Some st' \<Rightarrow> cg_body s xi0 i st')"
  by (simp add: cg_loop_append split: option.splits)

text \<open>What one round computes, with the names of the source.\<close>

lemma cg_body_SomeD:
  assumes "cg_body s xi0 i (u, d, grad0) = Some (u', d', grad')"
  shows "grad' = div3 (adj_tomo s (sub3 (fwd_tomo s u) xi0)) (real (ntheta s * n s) / 2)"
    and "d' = (if i = 0 then neg3 grad'
               else add3 (neg3 grad')
                      (cscale3 (of_real ((norm3 grad')\<^sup>2) /
                                (sum3 (mul3 (conj3 d) (sub3 grad' grad0)) + 1 / 10 ^ 32)) d))"
    and "\<exists>ls. line_search exact (minf xi0) 1 (fwd_tomo s u) (fwd_tomo s d') = Some ls \<and>
              u' = add3 u (scale3 ((1/2) * ls) d')"
  using assms by (auto simp: cg_body_def Let_def split: option.splits)



subsection \<open>Concrete runs\<close>

lemma toy_round0:
  "cg_body (toy 2 1 1 1) [[[1]], [[2]]] 0 ([[[0]]], [], []) =
     Some ([[[5/8]]], [[[5]]], [[[- 5]]])"
proof -
  have Ru: "fwd_tomo (toy 2 1 1 1) [[[0]]] = [[[0]], [[0]]]"
    by (simp add: eval_arr upt_2)
  have grad: "div3 (adj_tomo (toy 2 1 1 1) (sub3 [[[0]], [[0]]] [[[1]], [[2]]]))
      (real (ntheta (toy 2 1 1 1) * n (toy 2 1 1 1)) / 2) = [[[- 5]]]"
    by (simp add: eval_arr upt_2)
  have d: "neg3 [[[- 5]]] = [[[5]]]"
    by (simp add: eval_arr)
  have Rd: "fwd_tomo (toy 2 1 1 1) [[[5]]] = [[[5]], [[10]]]"
    by (simp add: eval_arr upt_2)
  have rej1: "\<not> non_increase (minf [[[1]], [[2]]]) [[[0]], [[0]]] [[[5]], [[10]]] 1"
    by (simp add: non_increase_def minf_sumsq eval_arr)
  have rej2: "\<not> non_increase (minf [[[1]], [[2]]]) [[[0]], [[0]]] [[[5]], [[10]]] (1 * (1/2))"
    by (simp add: non_increase_def minf_sumsq eval_arr norm_divide power_divide)
  have acc: "non_increase (minf [[[1]], [[2]]]) [[[0]], [[0]]] [[[5]], [[10]]] (1 * (1/2) * (1/2))"
    by (simp add: non_increase_def minf_sumsq eval_arr norm_divide power_divide)
  have ls: "line_search exact (minf [[[1]], [[2]]]) 1 [[[0]], [[0]]] [[[5]], [[10]]] = Some (1 * (1/2) * (1/2))"
    by (simp only: line_search_reject [OF rej1] line_search_reject [OF rej2]
        line_search_accept [OF acc])
  have u: "add3 [[[0]]] (scale3 (1/2 * (1 * (1/2) * (1/2))) [[[5]]]) = [[[5/8]]]"
    by (simp add: step_one_cell)
  show ?thesis
    unfolding cg_body_def Let_def prod.case
    by (simp only: Ru grad refl if_True d Rd ls option.case u)
qed

lemma toy_run1:
  "cg_loop (toy 2 1 1 1) [[[1]], [[2]]] [0..<Suc 0] ([[[0]]], [], []) =
     Some ([[[5/8]]], [[[5]]], [[[- 5]]])"
  using toy_round0 by simp

lemma ex_cg: "cg_tomo (toy 1 3 1 2) [[[1],[1]]] [[[0]],[[0]]] 1 = Some [[[1]],[[1]]]"
  apply (simp add: cg_tomo_def cg_body_def Let_def eval_arr upt_2
      line_search_accept non_increase_def minf_sumsq)
  done

lemma ex_cg_cell: "cg_tomo (toy 1 2 1 1) [[[1]]] [[[0]]] 1 = Some [[[1]]]"
  by (simp add: cg_tomo_def cg_body_def Let_def eval_arr
      line_search_accept non_increase_def minf_sumsq)

lemma skew_round0:
  "cg_body skew [[[0]]] 0 ([[[1]]], [], []) =
     Some ([[[Complex (3/4) (- (1/4))]]], [[[Complex (- (1/2)) (- (1/2))]]], [[[Complex (1/2) (1/2)]]])"
proof -
  have grad: "div3 (adj_tomo skew (sub3 [[[1]]] [[[0]]])) (real (ntheta skew * n skew) / 2)
     = [[[Complex (1/2) (1/2)]]]"
    by (simp add: eval_arr complex_eq_iff)
  have d: "neg3 [[[Complex (1/2) (1/2)]]] = [[[Complex (- (1/2)) (- (1/2))]]]"
    by (simp add: eval_arr complex_eq_iff)
  have Rd: "fwd_tomo skew [[[Complex (- (1/2)) (- (1/2))]]] = [[[Complex (- (1/2)) (- (1/2))]]]"
    by (simp add: eval_arr)
  have Ru: "fwd_tomo skew [[[1]]] = [[[1]]]"
    by (simp add: eval_arr)
  have ls: "line_search exact (minf [[[0]]]) 1 [[[1]]] [[[Complex (- (1/2)) (- (1/2))]]] = Some 1"
    by (rule line_search_accept) (simp add: non_increase_one_cell power2_eq_square)
  have u: "add3 [[[1]]] (scale3 (1/2 * 1) [[[Complex (- (1/2)) (- (1/2))]]]) = [[[Complex (3/4) (- (1/4))]]]"
    by (simp add: step_one_cell complex_eq_iff)
  show ?thesis
    unfolding cg_body_def Let_def prod.case
    by (simp only: grad Ru refl if_True d Rd ls option.case u)
qed

lemma skew_d1_value:
  "skew_d1 = Complex
     (- (1093750000000000000000000000000056250000000000000000000000000001 /
         625000000000000000000000000000050000000000000000000000000000002))
     (- (312500000000000000000000000000087500000000000000000000000000001 /
         1250000000000000000000000000000100000000000000000000000000000004))"
  by (simp add: skew_d1_def complex_eq_iff Re_divide Im_divide power2_eq_square)

lemma skew_nrm: "(norm3 [[[Complex (1/2) (1/4)]]])\<^sup>2 = 5/16"
  by (simp add: norm3_sq ravel_def cmod_power2 power_divide)

lemma skew_ip:
  "sum3 (mul3 (conj3 [[[Complex (- (1/2)) (- (1/2))]]])
      (sub3 [[[Complex (1/2) (1/4)]]] [[[Complex (1/2) (1/2)]]])) = Complex (1/8) (1/8)"
  by (simp add: eval_arr complex_eq_iff)

lemma skew_round1:
  "cg_body skew [[[0]]] 1
     ([[[Complex (3/4) (- (1/4))]]], [[[Complex (- (1/2)) (- (1/2))]]], [[[Complex (1/2) (1/2)]]]) =
   Some ([[[Complex (3/4) (- (1/4)) + of_real (1/4) * skew_d1]]], [[[skew_d1]]],
         [[[Complex (1/2) (1/4)]]])"
proof -
  have Ru: "fwd_tomo skew [[[Complex (3/4) (- (1/4))]]] = [[[Complex (3/4) (- (1/4))]]]"
    by (simp add: eval_arr)
  have grad: "div3 (adj_tomo skew (sub3 [[[Complex (3/4) (- (1/4))]]] [[[0]]]))
      (real (ntheta skew * n skew) / 2) = [[[Complex (1/2) (1/4)]]]"
    by (simp add: eval_arr complex_eq_iff)
  note nrm = skew_nrm and ip = skew_ip
  have d: "add3 (neg3 [[[Complex (1/2) (1/4)]]])
      (cscale3 (of_real (5/16) / (Complex (1/8) (1/8) + 1 / 10 ^ 32))
         [[[Complex (- (1/2)) (- (1/2))]]]) = [[[skew_d1]]]"
    by (simp add: eval_arr skew_d1_def)
  have Rd: "fwd_tomo skew [[[skew_d1]]] = [[[skew_d1]]]"
    by (simp add: eval_arr)
  have rej: "\<not> non_increase (minf [[[0]]]) [[[Complex (3/4) (- (1/4))]]] [[[skew_d1]]] 1"
    by (simp add: non_increase_one_cell skew_d1_value power2_eq_square)
  have acc: "non_increase (minf [[[0]]]) [[[Complex (3/4) (- (1/4))]]] [[[skew_d1]]] (1 * (1/2))"
    by (simp add: non_increase_one_cell skew_d1_value power2_eq_square)
  have ls: "line_search exact (minf [[[0]]]) 1 [[[Complex (3/4) (- (1/4))]]] [[[skew_d1]]] = Some (1 * (1/2))"
    by (simp only: line_search_reject [OF rej] line_search_accept [OF acc])
  have u: "add3 [[[Complex (3/4) (- (1/4))]]] (scale3 (1/2 * (1 * (1/2))) [[[skew_d1]]]) =
      [[[Complex (3/4) (- (1/4)) + of_real (1/4) * skew_d1]]]"
    by (simp add: step_one_cell)
  have one: "(1::nat) \<noteq> 0" by simp
  show ?thesis
    unfolding cg_body_def Let_def prod.case
    by (simp only: Ru grad nrm ip one if_False d Rd ls option.case u)
qed

lemma skew_run1:
  "cg_loop skew [[[0]]] [0..<1] ([[[1]]], [], []) =
     Some ([[[Complex (3/4) (- (1/4))]]], [[[Complex (- (1/2)) (- (1/2))]]], [[[Complex (1/2) (1/2)]]])"
  using skew_round0 by simp

lemma skew_run2:
  "cg_loop skew [[[0]]] [0..<2] ([[[1]]], [], []) =
     Some ([[[Complex (3/4) (- (1/4)) + of_real (1/4) * skew_d1]]], [[[skew_d1]]],
           [[[Complex (1/2) (1/4)]]])"
proof -
  have "[0..<2] = [0, 1]" by (simp add: eval_nat_numeral)
  then show ?thesis using skew_round0 skew_round1 by simp
qed

lemma skew_run2_Suc:
  "cg_loop skew [[[0]]] [0..<Suc 1] ([[[1]]], [], []) =
     Some ([[[Complex (3/4) (- (1/4)) + of_real (1/4) * skew_d1]]], [[[skew_d1]]],
           [[[Complex (1/2) (1/4)]]])"
  using skew_run2 by (simp add: numeral_2_eq_2)

subsection \<open>The recurrence\<close>

text \<open>
  Claim C1. When the loop of \<open>cg_tomo\<close> has completed round \<open>i\<close> with the state
  \<open>(u', d', grad')\<close>, it had completed the rounds before it with a state \<open>(u, d, grad0)\<close>,
  \<open>u\<close> and \<open>u'\<close> being what \<open>cg_tomo\<close> returns after \<open>i\<close> and \<open>i + 1\<close> rounds, and:
  \<open>grad'\<close> is the gradient of \<open>u\<close> with the divisor \<open>ntheta * n / 2\<close>, which depends on
  the solver only; the step \<open>gamma\<close> is half the result of the line search from 1 along
  the new direction \<open>d'\<close>; \<open>u' = u + gamma * d'\<close>; and the next round starts from
  \<open>(u', d', grad')\<close>, so \<open>grad'\<close> is its previous gradient.
\<close>

theorem cg_tomo_recurrence:
  assumes "cg_loop s xi0 [0..<Suc i] (u0, [], []) = Some (u', d', grad')"
  shows "\<exists>u d grad0 gamma.
           cg_loop s xi0 [0..<i] (u0, [], []) = Some (u, d, grad0) \<and>
           cg_tomo s xi0 u0 i = Some u \<and> cg_tomo s xi0 u0 (Suc i) = Some u' \<and>
           grad' = spec_grad s xi0 u \<and>
           spec_gamma s xi0 u d' = Some gamma \<and>
           u' = add3 u (scale3 gamma d') \<and>
           cg_loop s xi0 [0..<Suc (Suc i)] (u0, [], []) = cg_body s xi0 (Suc i) (u', d', grad')"
proof -
  from assms obtain u d grad0 where
    prev: "cg_loop s xi0 [0..<i] (u0, [], []) = Some (u, d, grad0)"
    and body: "cg_body s xi0 i (u, d, grad0) = Some (u', d', grad')"
    unfolding cg_loop_Suc by (auto split: option.splits)
  note b = cg_body_SomeD [OF body]
  from b(3) obtain ls where
    ls: "line_search exact (minf xi0) 1 (fwd_tomo s u) (fwd_tomo s d') = Some ls"
    and u': "u' = add3 u (scale3 ((1/2) * ls) d')"
    by blast
  have 1: "cg_tomo s xi0 u0 i = Some u" using prev by (simp add: cg_tomo_def)
  have 2: "cg_tomo s xi0 u0 (Suc i) = Some u'" using assms by (simp add: cg_tomo_def)
  have 3: "grad' = spec_grad s xi0 u" using b(1) by (simp add: spec_grad_def)
  have 4: "spec_gamma s xi0 u d' = Some ((1/2) * ls)" using ls by (simp add: spec_gamma_def)
  have 5: "cg_loop s xi0 [0..<Suc (Suc i)] (u0, [], []) = cg_body s xi0 (Suc i) (u', d', grad')"
    using assms by (subst cg_loop_Suc) simp
  show ?thesis using prev 1 2 3 4 u' 5 by blast
qed

theorem cg_tomo_recurrence_witness:
  "cg_loop (toy 2 1 1 1) [[[1]], [[2]]] [0..<Suc 0] ([[[0]]], [], []) =
     Some ([[[5/8]]], [[[5]]], [[[- 5]]]) \<and>
   (\<exists>u d grad0 gamma.
      cg_loop (toy 2 1 1 1) [[[1]], [[2]]] [0..<0] ([[[0]]], [], []) = Some (u, d, grad0) \<and>
      cg_tomo (toy 2 1 1 1) [[[1]], [[2]]] [[[0]]] 0 = Some u \<and>
      cg_tomo (toy 2 1 1 1) [[[1]], [[2]]] [[[0]]] (Suc 0) = Some [[[5/8]]] \<and>
      [[[- 5]]] = spec_grad (toy 2 1 1 1) [[[1]], [[2]]] u \<and>
      spec_gamma (toy 2 1 1 1) [[[1]], [[2]]] u [[[5]]] = Some gamma \<and>
      [[[5/8]]] = add3 u (scale3 gamma [[[5]]]) \<and>
      cg_loop (toy 2 1 1 1) [[[1]], [[2]]] [0..<Suc (Suc 0)] ([[[0]]], [], []) =
        cg_body (toy 2 1 1 1) [[[1]], [[2]]] (Suc 0) ([[[5/8]]], [[[5]]], [[[- 5]]]))"
  using cg_tomo_recurrence [OF toy_run1] toy_run1 by blast

subsection \<open>The search direction\<close>

text \<open>
  Claim C3, as the code has it. Round 0 sets the direction to \<open>-grad\<close>. Round \<open>i \<ge> 1\<close>
  sets it to \<open>-grad + (\<parallel>grad\<parallel>\<^sup>2 / (\<langle>d, grad - grad0\<rangle> + 1e-32)) * d\<close>, where \<open>d\<close> and \<open>grad0\<close> are
  the direction and gradient of the round before and \<open>\<langle>d, g\<rangle> = sum(conj(d) * g)\<close> is the
  complex inner product: no real part is taken. When that inner product is real, the
  direction is the one of the specification.
\<close>

theorem cg_tomo_direction:
  assumes "cg_loop s xi0 [0..<Suc i] (u0, [], []) = Some (u', d', grad')"
  shows "(i = 0 \<longrightarrow> d' = neg3 grad') \<and>
         (0 < i \<longrightarrow>
            (\<exists>u d grad0.
               cg_loop s xi0 [0..<i] (u0, [], []) = Some (u, d, grad0) \<and>
               d' = add3 (neg3 grad')
                      (cscale3 (of_real ((norm3 grad')\<^sup>2) /
                                (inner3 d (sub3 grad' grad0) + 1 / 10 ^ 32)) d) \<and>
               (Im (inner3 d (sub3 grad' grad0)) = 0 \<longrightarrow>
                  d' = spec_direction i grad' d grad0)))"
proof -
  from assms obtain u d grad0 where
    prev: "cg_loop s xi0 [0..<i] (u0, [], []) = Some (u, d, grad0)"
    and body: "cg_body s xi0 i (u, d, grad0) = Some (u', d', grad')"
    unfolding cg_loop_Suc by (auto split: option.splits)
  note b = cg_body_SomeD(2) [OF body]
  have first: "d' = neg3 grad'" if "i = 0" using b that by simp
  have later: "d' = add3 (neg3 grad')
                      (cscale3 (of_real ((norm3 grad')\<^sup>2) /
                                (inner3 d (sub3 grad' grad0) + 1 / 10 ^ 32)) d)" if "0 < i"
    using b that by (simp add: inner3_def)
  have real: "d' = spec_direction i grad' d grad0"
    if "0 < i" "Im (inner3 d (sub3 grad' grad0)) = 0"
  proof -
    let ?ip = "inner3 d (sub3 grad' grad0)"
    have "?ip + 1 / 10 ^ 32 = of_real (Re ?ip + 1 / 10 ^ 32)"
      using that(2) by (simp add: complex_eq_iff)
    then have eq: "of_real ((norm3 grad')\<^sup>2 / (Re ?ip + 1 / 10 ^ 32)) =
               of_real ((norm3 grad')\<^sup>2) / (?ip + 1 / 10 ^ 32)"
      by (simp only: of_real_divide)
    have ne: "i \<noteq> 0" using that(1) by simp
    have "spec_direction i grad' d grad0 =
          add3 (neg3 grad')
            (cscale3 (of_real ((norm3 grad')\<^sup>2 / (Re ?ip + 1 / 10 ^ 32))) d)"
      unfolding spec_direction_def real_inner3_def by (simp only: ne if_False)
    also have "\<dots> = d'"
      unfolding eq using later [OF that(1)] by (rule sym)
    finally show ?thesis by (rule sym)
  qed
  show ?thesis using prev first later real by blast
qed

theorem cg_tomo_direction_witness:
  "cg_loop skew [[[0]]] [0..<Suc 1] ([[[1]]], [], []) =
     Some ([[[Complex (3/4) (- (1/4)) + of_real (1/4) * skew_d1]]], [[[skew_d1]]],
           [[[Complex (1/2) (1/4)]]]) \<and>
   (\<exists>u d grad0.
      cg_loop skew [[[0]]] [0..<1] ([[[1]]], [], []) = Some (u, d, grad0) \<and>
      [[[skew_d1]]] =
        add3 (neg3 [[[Complex (1/2) (1/4)]]])
          (cscale3 (of_real ((norm3 [[[Complex (1/2) (1/4)]]])\<^sup>2) /
                    (inner3 d (sub3 [[[Complex (1/2) (1/4)]]] grad0) + 1 / 10 ^ 32)) d))"
  using cg_tomo_direction [OF skew_run2_Suc] skew_run2_Suc by auto

text \<open>
  On the solver \<open>skew\<close> the inner product of round 1 is \<open>(1 + i) / 8\<close>, which is not
  real, and the direction after round 1 is not the one that the real inner product
  gives.
\<close>

theorem direction_not_real_inner_product:
  "cg_loop skew [[[0]]] [0..<1] ([[[1]]], [], []) =
     Some ([[[Complex (3/4) (- (1/4))]]], [[[Complex (- (1/2)) (- (1/2))]]], [[[Complex (1/2) (1/2)]]]) \<and>
   cg_loop skew [[[0]]] [0..<2] ([[[1]]], [], []) =
     Some ([[[Complex (3/4) (- (1/4)) + of_real (1/4) * skew_d1]]], [[[skew_d1]]],
           [[[Complex (1/2) (1/4)]]]) \<and>
   [[[skew_d1]]] \<noteq>
     spec_direction 1 [[[Complex (1/2) (1/4)]]] [[[Complex (- (1/2)) (- (1/2))]]]
       [[[Complex (1/2) (1/2)]]]"
proof -
  define sd where "sd = - Complex (1/2) (1/4) +
      of_real (5/16 / (1/8 + 1 / 10 ^ 32)) * Complex (- (1/2)) (- (1/2))"
  have "Im skew_d1 \<noteq> Im sd"
    by (simp add: sd_def skew_d1_value)
  then have ne: "skew_d1 \<noteq> sd" by (rule contrapos_nn) simp
  have "spec_direction 1 [[[Complex (1/2) (1/4)]]] [[[Complex (- (1/2)) (- (1/2))]]]
       [[[Complex (1/2) (1/2)]]] = [[[sd]]]"
    unfolding spec_direction_def real_inner3_def inner3_def skew_nrm skew_ip
    by (simp add: eval_arr sd_def)
  with ne have "[[[skew_d1]]] \<noteq>
     spec_direction 1 [[[Complex (1/2) (1/4)]]] [[[Complex (- (1/2)) (- (1/2))]]]
       [[[Complex (1/2) (1/2)]]]"
    by simp
  with skew_run1 skew_run2 show ?thesis by simp
qed

subsection \<open>The objective along the iterates\<close>














section \<open>The solver by partitions\<close>

text \<open>What the loop of cg_tomo_batch leaves alone.\<close>

lemma cg_batch_loop_frame:
  assumes "cg_batch_loop s xi0 u titer ks h = Some (h', r)"
  shows "length h' = length h \<and> (\<forall>a. a \<noteq> u \<longrightarrow> h' ! a = h ! a) \<and>
         length (h' ! u) = length (h ! u) \<and>
         (\<forall>m. (\<forall>k \<in> set ks. (k + 1) * pnz s \<le> m) \<longrightarrow> drop m (h' ! u) = drop m (h ! u))"
  using assms
proof (induction ks arbitrary: h)
  case Nil
  then show ?case by simp
next
  case (Cons k ks)
  let ?ids = "arange (k * pnz s) ((k + 1) * pnz s)"
  show ?case
  proof (cases "take_ax0 ?ids (h ! u)")
    case (Inl e)
    with Cons.prems show ?thesis by (simp add: Let_def)
  next
    case u_gpu: (Inr u_gpu)
    show ?thesis
    proof (cases "take_ax1 ?ids (h ! xi0)")
      case (Inl e)
      with Cons.prems u_gpu show ?thesis by (simp add: Let_def)
    next
      case xi0_gpu: (Inr xi0_gpu)
      show ?thesis
      proof (cases "cg_tomo s xi0_gpu u_gpu titer")
        case None
        with Cons.prems u_gpu xi0_gpu show ?thesis by (simp add: Let_def)
      next
        case (Some v)
        let ?h1 = "h[u := put_ax0 ?ids v (h ! u)]"
        have run: "cg_batch_loop s xi0 u titer ks ?h1 = Some (h', r)"
          using Cons.prems u_gpu xi0_gpu Some by (simp add: Let_def)
        note ih = Cons.IH [OF run]
        have len: "length h' = length h" using ih by simp
        have other: "\<forall>a. a \<noteq> u \<longrightarrow> h' ! a = h ! a" using ih by simp
        have h1u: "?h1 ! u = (if u < length h then put_ax0 ?ids v (h ! u) else h ! u)"
          by (simp add: list_update_beyond)
        have lenu: "length (h' ! u) = length (h ! u)" using ih h1u by simp
        have dr: "drop m (h' ! u) = drop m (h ! u)"
          if m: "\<forall>j \<in> set (k # ks). (j + 1) * pnz s \<le> m" for m
        proof -
          have "drop m (h' ! u) = drop m (?h1 ! u)" using ih m by simp
          also have "\<dots> = drop m (h ! u)"
          proof (cases "u < length h")
            case True
            have "\<forall>i \<in> set ?ids. i < m" using m by (auto simp: arange_def)
            then show ?thesis using True by (simp add: put_ax0_drop)
          next
            case False
            then show ?thesis by (simp add: list_update_beyond)
          qed
          finally show ?thesis .
        qed
        show ?thesis using len other lenu dr by blast
      qed
    qed
  qed
qed

lemma cg_batch_loop_no_error:
  assumes "cg_batch_loop s xi0 u titer ks h = Some (h', r)"
    and "xi0 \<noteq> u"
    and "\<forall>k \<in> set ks. (k + 1) * pnz s \<le> length (h ! u)"
    and "\<forall>k \<in> set ks. \<forall>p \<in> set (h ! xi0). (k + 1) * pnz s \<le> length p"
  shows "r = Inr ()"
  using assms
proof (induction ks arbitrary: h)
  case Nil
  then show ?case by simp
next
  case (Cons k ks)
  let ?lo = "k * pnz s" and ?hi = "(k + 1) * pnz s"
  have tu: "take_ax0 (arange ?lo ?hi) (h ! u) = Inr (slice_ax0 ?lo ?hi (h ! u))"
    using Cons.prems(3) by (intro take_ax0_upt) simp
  have tx: "take_ax1 (arange ?lo ?hi) (h ! xi0) = Inr (slice_ax1 ?lo ?hi (h ! xi0))"
    using Cons.prems(4) by (intro take_ax1_upt) simp
  show ?case
  proof (cases "cg_tomo s (slice_ax1 ?lo ?hi (h ! xi0)) (slice_ax0 ?lo ?hi (h ! u)) titer")
    case None
    with Cons.prems(1) tu tx show ?thesis by (simp add: Let_def)
  next
    case (Some v)
    let ?h1 = "h[u := put_ax0 (arange ?lo ?hi) v (h ! u)]"
    have run: "cg_batch_loop s xi0 u titer ks ?h1 = Some (h', r)"
      using Cons.prems(1) tu tx Some by (simp add: Let_def)
    have lenu: "length (?h1 ! u) = length (h ! u)"
      by (cases "u < length h") (simp_all add: list_update_beyond)
    have x: "?h1 ! xi0 = h ! xi0" using Cons.prems(2) by simp
    have p3: "\<forall>j \<in> set ks. (j + 1) * pnz s \<le> length (?h1 ! u)"
      using Cons.prems(3) lenu by simp
    have p4: "\<forall>j \<in> set ks. \<forall>p \<in> set (?h1 ! xi0). (j + 1) * pnz s \<le> length p"
      using Cons.prems(4) x by simp
    show ?thesis
      by (rule Cons.IH [OF run Cons.prems(2) p3 p4])
  qed
qed

lemma cg_batch_loop_zero:
  assumes "u < length h"
    and "\<forall>k \<in> set ks. (k + 1) * pnz s \<le> length (h ! u)"
    and "\<forall>k \<in> set ks. \<forall>p \<in> set (h ! xi0). (k + 1) * pnz s \<le> length p"
  shows "cg_batch_loop s xi0 u 0 ks h = Some (h, Inr ())"
  using assms(2,3)
proof (induction ks)
  case Nil
  then show ?case by simp
next
  case (Cons k ks)
  let ?lo = "k * pnz s" and ?hi = "(k + 1) * pnz s"
  have tu: "take_ax0 (arange ?lo ?hi) (h ! u) = Inr (slice_ax0 ?lo ?hi (h ! u))"
    using Cons.prems(1) by (intro take_ax0_upt) simp
  have tx: "take_ax1 (arange ?lo ?hi) (h ! xi0) = Inr (slice_ax1 ?lo ?hi (h ! xi0))"
    using Cons.prems(2) by (intro take_ax1_upt) simp
  have same: "put_ax0 (arange ?lo ?hi) (slice_ax0 ?lo ?hi (h ! u)) (h ! u) = h ! u"
    using Cons.prems(1) by (intro put_ax0_same_slice) simp_all
  have "cg_batch_loop s xi0 u 0 (k # ks) h = cg_batch_loop s xi0 u 0 ks (h[u := h ! u])"
    using tu tx same by (simp add: Let_def)
  also have "\<dots> = Some (h, Inr ())"
    using Cons.IH Cons.prems by simp
  finally show ?case .
qed

lemma cg_batch_loop_returns:
  assumes "u < length h" "xi0 \<noteq> u"
    and "K * pnz s \<le> length (h ! u)"
    and "\<forall>p \<in> set (h ! xi0). K * pnz s \<le> length p"
    and "\<forall>k. j \<le> k \<and> k < K \<longrightarrow>
           cg_tomo s (slice_ax1 (k * pnz s) ((k + 1) * pnz s) (h ! xi0))
             (slice_ax0 (k * pnz s) ((k + 1) * pnz s) (h ! u)) titer \<noteq> None"
  shows "\<exists>h'. cg_batch_loop s xi0 u titer [j..<K] h = Some (h', Inr ())"
  using assms
proof (induction "K - j" arbitrary: j h)
  case 0
  then show ?case by simp
next
  case (Suc d)
  then have jK: "j < K" by simp
  let ?lo = "j * pnz s" and ?hi = "(j + 1) * pnz s"
  have hiK: "?hi \<le> K * pnz s" using jK by (intro mult_le_mono1) simp
  have tu: "take_ax0 (arange ?lo ?hi) (h ! u) = Inr (slice_ax0 ?lo ?hi (h ! u))"
    using Suc.prems(3) hiK by (intro take_ax0_upt) linarith
  have tx: "take_ax1 (arange ?lo ?hi) (h ! xi0) = Inr (slice_ax1 ?lo ?hi (h ! xi0))"
    using Suc.prems(4) hiK by (intro take_ax1_upt) fastforce
  from Suc.prems(5) jK obtain v where
    v: "cg_tomo s (slice_ax1 ?lo ?hi (h ! xi0)) (slice_ax0 ?lo ?hi (h ! u)) titer = Some v"
    by blast
  let ?h1 = "h[u := put_ax0 (arange ?lo ?hi) v (h ! u)]"
  have h1u: "?h1 ! u = put_ax0 (arange ?lo ?hi) v (h ! u)" using Suc.prems(1) by simp
  have h1x: "?h1 ! xi0 = h ! xi0" using Suc.prems(2) by simp
  have step: "cg_batch_loop s xi0 u titer [j..<K] h = cg_batch_loop s xi0 u titer [Suc j..<K] ?h1"
    using jK tu tx v by (simp add: upt_conv_Cons Let_def)
  have later: "\<forall>k. Suc j \<le> k \<and> k < K \<longrightarrow>
           cg_tomo s (slice_ax1 (k * pnz s) ((k + 1) * pnz s) (?h1 ! xi0))
             (slice_ax0 (k * pnz s) ((k + 1) * pnz s) (?h1 ! u)) titer \<noteq> None"
  proof (intro allI impI)
    fix k assume k: "Suc j \<le> k \<and> k < K"
    then have "?hi \<le> k * pnz s" by (intro mult_le_mono1) simp
    then have "slice_ax0 (k * pnz s) ((k + 1) * pnz s) (?h1 ! u) =
               slice_ax0 (k * pnz s) ((k + 1) * pnz s) (h ! u)"
      unfolding h1u by (rule slice_ax0_put_later)
    then show "cg_tomo s (slice_ax1 (k * pnz s) ((k + 1) * pnz s) (?h1 ! xi0))
             (slice_ax0 (k * pnz s) ((k + 1) * pnz s) (?h1 ! u)) titer \<noteq> None"
      using Suc.prems(5) k h1x by simp
  qed
  have d: "d = K - Suc j" using Suc.hyps(2) by simp
  have "\<exists>h'. cg_batch_loop s xi0 u titer [Suc j..<K] ?h1 = Some (h', Inr ())"
  proof (rule Suc.hyps(1) [OF d _ Suc.prems(2) _ _ later])
    show "u < length ?h1" using Suc.prems(1) by simp
    show "K * pnz s \<le> length (?h1 ! u)" using Suc.prems(3) h1u by simp
    show "\<forall>p \<in> set (?h1 ! xi0). K * pnz s \<le> length p" using Suc.prems(4) h1x by simp
  qed
  with step show ?case by simp
qed

lemma cg_tomo_batch_run:
  assumes "0 < pnz s"
  shows "cg_tomo_batch s h xi0 init titer =
         (case cg_batch_loop s xi0 (length h) titer [0..<nz s div pnz s] (h @ [h ! init]) of
            None \<Rightarrow> None
          | Some (h', Inl e) \<Rightarrow> Some (h', Inl e)
          | Some (h', Inr _) \<Rightarrow> Some (h', Inr (length h)))"
  using assms by (simp add: cg_tomo_batch_def Let_def)

lemma ex_cg_batch:
  "cg_tomo_batch (toy 1 2 1 1) [[[[1], [1]]], [[[0]], [[0]]]] 0 1 1 =
     Some ([[[[1], [1]]], [[[0]], [[0]]], [[[1]], [[1]]]], Inr 2)"
  by (simp add: cg_tomo_batch_def Let_def upt_2 take_ax0_def take_ax1_def arange_def
      put_ax0_def ex_cg_cell [simplified])

subsection \<open>No iterations\<close>

text \<open>
  Claim C6. With \<open>titer = 0\<close>, on arrays of the solver's shapes and \<open>nz\<close> a multiple of
  \<open>pnz\<close>, \<open>cg_tomo_batch\<close> returns a new array equal to \<open>init\<close>: each partition is
  written back unchanged.
\<close>

theorem cg_tomo_batch_zero_iterations:
  assumes "0 < pnz s" "pnz s dvd nz s" "init < length h" "xi0 < length h"
    and "shape3 (nz s) (n s) (n s) (h ! init)" "shape3 (ntheta s) (nz s) (n s) (h ! xi0)"
  shows "cg_tomo_batch s h xi0 init 0 = Some (h @ [h ! init], Inr (length h)) \<and>
         (h @ [h ! init]) ! length h = h ! init"
proof -
  let ?K = "nz s div pnz s"
  let ?h1 = "h @ [h ! init]"
  let ?u = "length h"
  have h1u: "?h1 ! ?u = h ! init" by simp
  have h1x: "?h1 ! xi0 = h ! xi0" using assms(4) by (simp add: nth_append)
  have bu: "\<forall>k \<in> set [0..<?K]. (k + 1) * pnz s \<le> length (?h1 ! ?u)"
    unfolding h1u using assms(5) partition_le_nz [of _ s] by (simp add: shape3_def)
  have bx: "\<forall>k \<in> set [0..<?K]. \<forall>p \<in> set (?h1 ! xi0). (k + 1) * pnz s \<le> length p"
    unfolding h1x using assms(6) partition_le_nz [of _ s] by (simp add: shape3_def)
  have "cg_batch_loop s xi0 ?u 0 [0..<?K] ?h1 = Some (?h1, Inr ())"
    by (rule cg_batch_loop_zero [OF _ bu bx]) simp
  then show ?thesis
    unfolding cg_tomo_batch_run [OF assms(1)] by simp
qed

theorem cg_tomo_batch_zero_iterations_witness:
  "0 < pnz (toy 1 2 1 1) \<and> pnz (toy 1 2 1 1) dvd nz (toy 1 2 1 1) \<and>
   shape3 2 1 1 ([[[[1], [1]]], [[[0]], [[0]]]] ! 1) \<and>
   shape3 1 2 1 ([[[[1], [1]]], [[[0]], [[0]]]] ! 0) \<and>
   cg_tomo_batch (toy 1 2 1 1) [[[[1], [1]]], [[[0]], [[0]]]] 0 1 0 =
     Some ([[[[1], [1]]], [[[0]], [[0]]], [[[0]], [[0]]]], Inr 2)"
  using cg_tomo_batch_zero_iterations [of "toy 1 2 1 1" 1 "[[[[1], [1]]], [[[0]], [[0]]]]" 0]
  by (simp add: shape3_def)

subsection \<open>The caller's arrays\<close>

text \<open>
  Claim C9. Whatever \<open>cg_tomo_batch\<close> returns or raises, it leaves \<open>init\<close> and every
  other array the caller holds as they were: it works on a copy, and the array it
  returns is a new object, distinct from \<open>init\<close>.
\<close>

theorem cg_tomo_batch_keeps_init:
  assumes "init < length h" "cg_tomo_batch s h xi0 init titer = Some (h', r)"
  shows "h' ! init = h ! init \<and> take (length h) h' = h \<and>
         (\<forall>u. r = Inr u \<longrightarrow> u \<noteq> init \<and> u = length h \<and> u < length h')"
proof -
  let ?h1 = "h @ [h ! init]"
  let ?u = "length h"
  have frame: "length h' = length ?h1 \<and> (\<forall>a. a \<noteq> ?u \<longrightarrow> h' ! a = ?h1 ! a)"
  proof (cases "pnz s = 0")
    case True
    with assms(2) show ?thesis by (simp add: cg_tomo_batch_def Let_def)
  next
    case False
    with assms(2) obtain r' where "cg_batch_loop s xi0 ?u titer [0..<nz s div pnz s] ?h1 = Some (h', r')"
      by (auto simp: cg_tomo_batch_def Let_def split: option.splits sum.splits prod.splits)
    from cg_batch_loop_frame [OF this] show ?thesis by blast
  qed
  have old: "h' ! a = h ! a" if "a < length h" for a
    using frame that by (simp add: nth_append)
  have "take (length h) h' = h"
    using frame old by (intro nth_equalityI) simp_all
  moreover have "u \<noteq> init \<and> u = length h \<and> u < length h'" if "r = Inr u" for u
    using assms that frame
    by (auto simp: cg_tomo_batch_def Let_def split: option.splits sum.splits prod.splits if_splits)
  ultimately show ?thesis using old [OF assms(1)] by blast
qed

theorem cg_tomo_batch_keeps_init_witness:
  "1 < length [[[[1], [1]]], [[[0]], [[0::complex]]]] \<and>
   cg_tomo_batch (toy 1 2 1 1) [[[[1], [1]]], [[[0]], [[0]]]] 0 1 1 =
     Some ([[[[1], [1]]], [[[0]], [[0]]], [[[1]], [[1]]]], Inr 2) \<and>
   [[[[1], [1]]], [[[0]], [[0]]], [[[1]], [[1]]]] ! 1 = [[[[1], [1]]], [[[0]], [[0::complex]]]] ! 1 \<and>
   take 2 [[[[1], [1]]], [[[0]], [[0]]], [[[1]], [[1::complex]]]] = [[[[1], [1]]], [[[0]], [[0]]]] \<and>
   (2::nat) \<noteq> 1"
  using cg_tomo_batch_keeps_init [OF _ ex_cg_batch] ex_cg_batch
  by simp

section \<open>A depth that is not a multiple of the partition size\<close>

text \<open>Partition \<open>k\<close> of the result of a batched transform.\<close>

lemma slice_ax0_adj_blocks:
  assumes "k < j"
  shows "slice_ax0 (k * pnz s) ((k + 1) * pnz s) (adj_blocks s data j @ rest) =
         adj_tomo s (slice_ax1 (k * pnz s) ((k + 1) * pnz s) data)"
  unfolding slice_ax0_def adj_blocks_def
  using concat_blocks_slice
    [of j "\<lambda>k. adj_tomo s (slice_ax1 (k * pnz s) ((k + 1) * pnz s) data)" "pnz s" k rest]
    assms
  by simp

lemma fwd_processed:
  assumes "k < j"
  shows "slice_ax1 (k * pnz s) ((k + 1) * pnz s)
           (map (\<lambda>t. fwd_rows s u j t @ rest) [0..<ntheta s]) =
         fwd_tomo s (slice_ax0 (k * pnz s) ((k + 1) * pnz s) u)"
proof (rule nth_equalityI)
  show "length (slice_ax1 (k * pnz s) ((k + 1) * pnz s)
           (map (\<lambda>t. fwd_rows s u j t @ rest) [0..<ntheta s])) =
        length (fwd_tomo s (slice_ax0 (k * pnz s) ((k + 1) * pnz s) u))"
    by (simp add: slice_ax1_def)
next
  fix t assume "t < length (slice_ax1 (k * pnz s) ((k + 1) * pnz s)
           (map (\<lambda>t. fwd_rows s u j t @ rest) [0..<ntheta s]))"
  then have t: "t < ntheta s" by (simp add: slice_ax1_def)
  then show "slice_ax1 (k * pnz s) ((k + 1) * pnz s)
           (map (\<lambda>t. fwd_rows s u j t @ rest) [0..<ntheta s]) ! t =
             fwd_tomo s (slice_ax0 (k * pnz s) ((k + 1) * pnz s) u) ! t"
    using slice_ax0_fwd_rows [OF t assms] by (simp add: slice_ax1_def)
qed

lemma fwd_truncates:
  assumes "0 < pnz s" "length u = nz s"
  shows "\<exists>res. fwd_tomo_batch s u = Inr res \<and> shape3 (ntheta s) (nz s) (n s) res \<and>
           (\<forall>k < nz s div pnz s.
              slice_ax1 (k * pnz s) ((k + 1) * pnz s) res =
              fwd_tomo s (slice_ax0 (k * pnz s) ((k + 1) * pnz s) u)) \<and>
           slice_ax1 (covered s) (nz s) res = zeros3 (ntheta s) (nz s mod pnz s) (n s) \<and>
           (\<forall>u'. length u' = nz s \<and> take (covered s) u' = take (covered s) u \<longrightarrow>
                 fwd_tomo_batch s u' = Inr res)"
proof -
  let ?K = "nz s div pnz s"
  let ?tail = "replicate (nz s - covered s) (replicate (n s) (0::complex))"
  let ?res = "\<lambda>u. map (\<lambda>t. fwd_rows s u ?K t @ ?tail) [0..<ntheta s]"
  have run: "fwd_tomo_batch s v = Inr (?res v)" if "length v = nz s" for v
    using fwd_tomo_batch_rows [of s v] assms(1) that covered_le [of s]
    by (simp add: covered_def)
  have rows: "\<forall>r \<in> set (fwd_rows s u ?K t). length r = n s" if "t < ntheta s" for t
    using that by (auto simp: fwd_rows_def fwd_tomo_def)
  have len: "length (fwd_rows s u ?K t) = covered s" if "t < ntheta s" for t
    using that by (simp add: length_fwd_rows covered_def)
  have sh: "shape3 (ntheta s) (nz s) (n s) (?res u)"
    using rows len covered_le [of s] by (auto simp: shape3_def)
  have zero: "slice_ax1 (covered s) (nz s) (?res u) = zeros3 (ntheta s) (nz s mod pnz s) (n s)"
  proof (rule nth_equalityI)
    show "length (slice_ax1 (covered s) (nz s) (?res u)) =
          length (zeros3 (ntheta s) (nz s mod pnz s) (n s))"
      by (simp add: slice_ax1_def zeros3_def)
  next
    fix t assume "t < length (slice_ax1 (covered s) (nz s) (?res u))"
    then have t: "t < ntheta s" by (simp add: slice_ax1_def)
    then show "slice_ax1 (covered s) (nz s) (?res u) ! t =
               zeros3 (ntheta s) (nz s mod pnz s) (n s) ! t"
      by (simp add: slice_ax1_def slice_ax0_def zeros3_def len covered_rest)
  qed
  have indep: "?res u' = ?res u"
    if "length u' = nz s" "take (covered s) u' = take (covered s) u" for u'
  proof -
    have sl: "slice_ax0 (k * pnz s) ((k + 1) * pnz s) u' =
              slice_ax0 (k * pnz s) ((k + 1) * pnz s) u" if "k < ?K" for k
      using slice_ax0_take_eq [OF partition_le_covered [OF that] \<open>take (covered s) u' = take (covered s) u\<close>] .
    have "fwd_rows s u' ?K t = fwd_rows s u ?K t" for t
      unfolding fwd_rows_def
    proof (intro arg_cong [where f = concat] map_cong refl)
      fix k assume "k \<in> set [0..<?K]"
      then have "k < ?K" by simp
      from sl [OF this]
      show "fwd_tomo s (slice_ax0 (k * pnz s) ((k + 1) * pnz s) u') ! t =
            fwd_tomo s (slice_ax0 (k * pnz s) ((k + 1) * pnz s) u) ! t"
        by (simp only:)
    qed
    then show ?thesis by simp
  qed
  have proc: "slice_ax1 (k * pnz s) ((k + 1) * pnz s) (?res u) =
              fwd_tomo s (slice_ax0 (k * pnz s) ((k + 1) * pnz s) u)" if "k < ?K" for k
    using that by (rule fwd_processed)
  show ?thesis
  proof (intro exI [of _ "?res u"] conjI allI impI)
    show "fwd_tomo_batch s u = Inr (?res u)" by (rule run [OF assms(2)])
    show "shape3 (ntheta s) (nz s) (n s) (?res u)" by (rule sh)
  next
    fix k assume "k < ?K"
    then show "slice_ax1 (k * pnz s) ((k + 1) * pnz s) (?res u) =
               fwd_tomo s (slice_ax0 (k * pnz s) ((k + 1) * pnz s) u)"
      by (rule proc)
  next
    show "slice_ax1 (covered s) (nz s) (?res u) = zeros3 (ntheta s) (nz s mod pnz s) (n s)"
      by (rule zero)
  next
    fix u' assume a: "length u' = nz s \<and> take (covered s) u' = take (covered s) u"
    then have "fwd_tomo_batch s u' = Inr (?res u')" by (intro run) simp
    also have "?res u' = ?res u" using a by (intro indep) simp_all
    finally show "fwd_tomo_batch s u' = Inr (?res u)" .
  qed
qed

lemma adj_truncates:
  assumes "0 < pnz s" "\<forall>p \<in> set data. length p = nz s"
  shows "\<exists>res. adj_tomo_batch s data = Inr res \<and> shape3 (nz s) (n s) (n s) res \<and>
           (\<forall>k < nz s div pnz s.
              slice_ax0 (k * pnz s) ((k + 1) * pnz s) res =
              adj_tomo s (slice_ax1 (k * pnz s) ((k + 1) * pnz s) data)) \<and>
           slice_ax0 (covered s) (nz s) res = zeros3 (nz s mod pnz s) (n s) (n s) \<and>
           (\<forall>data'. (\<forall>p \<in> set data'. length p = nz s) \<and>
                 map (take (covered s)) data' = map (take (covered s)) data \<longrightarrow>
                 adj_tomo_batch s data' = Inr res)"
proof -
  let ?K = "nz s div pnz s"
  let ?tail = "replicate (nz s - covered s) (replicate (n s) (replicate (n s) (0::complex)))"
  let ?res = "\<lambda>data. adj_blocks s data ?K @ ?tail"
  have run: "adj_tomo_batch s v = Inr (?res v)" if "\<forall>p \<in> set v. length p = nz s" for v
    using adj_tomo_batch_blocks [of s v] assms(1) that covered_le [of s]
    by (simp add: covered_def)
  have len: "length (adj_blocks s data ?K) = covered s"
    by (simp add: length_adj_blocks covered_def)
  have blocks: "\<forall>p \<in> set (adj_blocks s data ?K). length p = n s \<and> (\<forall>r \<in> set p. length r = n s)"
    by (auto simp: adj_blocks_def adj_tomo_def)
  have sh: "shape3 (nz s) (n s) (n s) (?res data)"
    using blocks len covered_le [of s] by (auto simp: shape3_def)
  have zero: "slice_ax0 (covered s) (nz s) (?res data) = zeros3 (nz s mod pnz s) (n s) (n s)"
    by (simp add: slice_ax0_def zeros3_def len covered_rest)
  have indep: "?res data' = ?res data"
    if "map (take (covered s)) data' = map (take (covered s)) data" for data'
  proof -
    have sl: "slice_ax1 (k * pnz s) ((k + 1) * pnz s) data' =
              slice_ax1 (k * pnz s) ((k + 1) * pnz s) data" if "k < ?K" for k
      using slice_ax1_take_eq [OF partition_le_covered [OF that] \<open>map (take (covered s)) data' = map (take (covered s)) data\<close>] .
    have "adj_blocks s data' ?K = adj_blocks s data ?K"
      unfolding adj_blocks_def
    proof (intro arg_cong [where f = concat] map_cong refl)
      fix k assume "k \<in> set [0..<?K]"
      then have "k < ?K" by simp
      from sl [OF this]
      show "adj_tomo s (slice_ax1 (k * pnz s) ((k + 1) * pnz s) data') =
            adj_tomo s (slice_ax1 (k * pnz s) ((k + 1) * pnz s) data)"
        by (simp only:)
    qed
    then show ?thesis by simp
  qed
  have proc: "slice_ax0 (k * pnz s) ((k + 1) * pnz s) (?res data) =
              adj_tomo s (slice_ax1 (k * pnz s) ((k + 1) * pnz s) data)" if "k < ?K" for k
    using that by (rule slice_ax0_adj_blocks)
  show ?thesis
  proof (intro exI [of _ "?res data"] conjI allI impI)
    show "adj_tomo_batch s data = Inr (?res data)" by (rule run [OF assms(2)])
    show "shape3 (nz s) (n s) (n s) (?res data)" by (rule sh)
  next
    fix k assume "k < ?K"
    then show "slice_ax0 (k * pnz s) ((k + 1) * pnz s) (?res data) =
               adj_tomo s (slice_ax1 (k * pnz s) ((k + 1) * pnz s) data)"
      by (rule proc)
  next
    show "slice_ax0 (covered s) (nz s) (?res data) = zeros3 (nz s mod pnz s) (n s) (n s)"
      by (rule zero)
  next
    fix data' assume a: "(\<forall>p \<in> set data'. length p = nz s) \<and>
        map (take (covered s)) data' = map (take (covered s)) data"
    then have "adj_tomo_batch s data' = Inr (?res data')" by (intro run) simp
    also have "?res data' = ?res data" using a by (intro indep) simp
    finally show "adj_tomo_batch s data' = Inr (?res data)" .
  qed
qed

lemma cg_truncates:
  assumes "0 < pnz s" "init < length h" "xi0 < length h"
    and "length (h ! init) = nz s" "\<forall>p \<in> set (h ! xi0). length p = nz s"
  shows "(\<forall>h' e. cg_tomo_batch s h xi0 init titer \<noteq> Some (h', Inl e)) \<and>
         (\<forall>h' u. cg_tomo_batch s h xi0 init titer = Some (h', Inr u) \<longrightarrow>
            length (h' ! u) = nz s \<and>
            slice_ax0 (covered s) (nz s) (h' ! u) = slice_ax0 (covered s) (nz s) (h ! init)) \<and>
         ((\<forall>k < nz s div pnz s.
             cg_tomo s (slice_ax1 (k * pnz s) ((k + 1) * pnz s) (h ! xi0))
               (slice_ax0 (k * pnz s) ((k + 1) * pnz s) (h ! init)) titer \<noteq> None) \<longrightarrow>
          (\<exists>h' u. cg_tomo_batch s h xi0 init titer = Some (h', Inr u)))"
proof -
  let ?K = "nz s div pnz s"
  let ?h1 = "h @ [h ! init]"
  let ?u = "length h"
  have h1u: "?h1 ! ?u = h ! init" by simp
  have h1x: "?h1 ! xi0 = h ! xi0" using assms(3) by (simp add: nth_append)
  have xu: "xi0 \<noteq> ?u" using assms(3) by simp
  have bu: "\<forall>k \<in> set [0..<?K]. (k + 1) * pnz s \<le> length (?h1 ! ?u)"
    unfolding h1u using assms(4) partition_le_nz [of _ s] by simp
  have bx: "\<forall>k \<in> set [0..<?K]. \<forall>p \<in> set (?h1 ! xi0). (k + 1) * pnz s \<le> length p"
    unfolding h1x using assms(5) partition_le_nz [of _ s] by simp
  have ok: "r = Inr ()" if "cg_batch_loop s xi0 ?u titer [0..<?K] ?h1 = Some (h', r)" for h' r
    using cg_batch_loop_no_error [OF that xu bu bx] .
  have no_error: "cg_tomo_batch s h xi0 init titer \<noteq> Some (h', Inl e)" for h' e
  proof
    assume a: "cg_tomo_batch s h xi0 init titer = Some (h', Inl e)"
    then obtain r where "cg_batch_loop s xi0 ?u titer [0..<?K] ?h1 = Some (h', r)" "r = Inl e"
      unfolding cg_tomo_batch_run [OF assms(1)]
      by (auto split: option.splits sum.splits prod.splits)
    with ok show False by blast
  qed
  have kept: "length (h' ! u) = nz s \<and>
      slice_ax0 (covered s) (nz s) (h' ! u) = slice_ax0 (covered s) (nz s) (h ! init)"
    if a: "cg_tomo_batch s h xi0 init titer = Some (h', Inr u)" for h' u
  proof -
    from a obtain r where run: "cg_batch_loop s xi0 ?u titer [0..<?K] ?h1 = Some (h', r)"
      and u: "u = ?u"
      unfolding cg_tomo_batch_run [OF assms(1)]
      by (auto split: option.splits sum.splits prod.splits)
    note fr = cg_batch_loop_frame [OF run]
    have len: "length (h' ! ?u) = nz s" using fr h1u assms(4) by simp
    have "\<forall>k \<in> set [0..<?K]. (k + 1) * pnz s \<le> covered s"
      using partition_le_covered [of _ s] by simp
    with fr have "drop (covered s) (h' ! ?u) = drop (covered s) (?h1 ! ?u)" by blast
    then have "slice_ax0 (covered s) (nz s) (h' ! ?u) = slice_ax0 (covered s) (nz s) (h ! init)"
      unfolding h1u by (simp add: slice_ax0_def)
    with len u show ?thesis by simp
  qed
  have returns: "\<exists>h' u. cg_tomo_batch s h xi0 init titer = Some (h', Inr u)"
    if a: "\<forall>k < ?K. cg_tomo s (slice_ax1 (k * pnz s) ((k + 1) * pnz s) (h ! xi0))
               (slice_ax0 (k * pnz s) ((k + 1) * pnz s) (h ! init)) titer \<noteq> None"
  proof -
    have "\<exists>h'. cg_batch_loop s xi0 ?u titer [0..<?K] ?h1 = Some (h', Inr ())"
    proof (rule cg_batch_loop_returns [OF _ xu])
      show "?u < length ?h1" by simp
      show "?K * pnz s \<le> length (?h1 ! ?u)" unfolding h1u using assms(4) by simp
      show "\<forall>p \<in> set (?h1 ! xi0). ?K * pnz s \<le> length p" unfolding h1x using assms(5) by simp
      show "\<forall>k. 0 \<le> k \<and> k < ?K \<longrightarrow>
           cg_tomo s (slice_ax1 (k * pnz s) ((k + 1) * pnz s) (?h1 ! xi0))
             (slice_ax0 (k * pnz s) ((k + 1) * pnz s) (?h1 ! ?u)) titer \<noteq> None"
        unfolding h1u h1x using a by blast
    qed
    then show ?thesis
      unfolding cg_tomo_batch_run [OF assms(1)] by auto
  qed
  show ?thesis using no_error kept returns by blast
qed

lemma covered_toy: "covered (toy 1 3 1 2) = 2"
  by (simp add: covered_def)

lemma ex_cg_batch_trunc:
  "cg_tomo_batch (toy 1 3 1 2) [[[[1], [1], [1]]], [[[0]], [[0]], [[5]]]] 0 1 1 =
     Some ([[[[1], [1], [1]]], [[[0]], [[0]], [[5]]], [[[1]], [[1]], [[5]]]], Inr 2)"
  by (simp add: cg_tomo_batch_def Let_def upt_2 take_ax0_def take_ax1_def arange_def
      put_ax0_def ex_cg [simplified])

text \<open>
  Claim C10. The batched operations handle the first \<open>(nz div pnz) * pnz\<close> depth slices
  only, whether or not \<open>pnz\<close> divides \<open>nz\<close>. \<open>fwd_tomo_batch\<close> and \<open>adj_tomo_batch\<close> raise no
  error, return in partition \<open>k < nz div pnz\<close> of their result the transform of
  partition \<open>k\<close> of their input, leave the trailing \<open>nz mod pnz\<close> slices of their result
  zero, and return the same result for every input that agrees on the slices handled.
  \<open>cg_tomo_batch\<close> raises
  no error, returns the trailing slices of \<open>init\<close> unchanged, and returns whenever the
  solver returns on every partition.
\<close>

theorem batch_truncates:
  assumes "0 < pnz s"
  shows "(length u = nz s \<longrightarrow>
           (\<exists>res. fwd_tomo_batch s u = Inr res \<and> shape3 (ntheta s) (nz s) (n s) res \<and>
              (\<forall>k < nz s div pnz s.
                 slice_ax1 (k * pnz s) ((k + 1) * pnz s) res =
                 fwd_tomo s (slice_ax0 (k * pnz s) ((k + 1) * pnz s) u)) \<and>
              slice_ax1 (covered s) (nz s) res = zeros3 (ntheta s) (nz s mod pnz s) (n s) \<and>
              (\<forall>u'. length u' = nz s \<and> take (covered s) u' = take (covered s) u \<longrightarrow>
                 fwd_tomo_batch s u' = Inr res))) \<and>
         ((\<forall>p \<in> set data. length p = nz s) \<longrightarrow>
           (\<exists>res. adj_tomo_batch s data = Inr res \<and> shape3 (nz s) (n s) (n s) res \<and>
              (\<forall>k < nz s div pnz s.
                 slice_ax0 (k * pnz s) ((k + 1) * pnz s) res =
                 adj_tomo s (slice_ax1 (k * pnz s) ((k + 1) * pnz s) data)) \<and>
              slice_ax0 (covered s) (nz s) res = zeros3 (nz s mod pnz s) (n s) (n s) \<and>
              (\<forall>data'. (\<forall>p \<in> set data'. length p = nz s) \<and>
                 map (take (covered s)) data' = map (take (covered s)) data \<longrightarrow>
                 adj_tomo_batch s data' = Inr res))) \<and>
         (init < length h \<and> xi0 < length h \<and> length (h ! init) = nz s \<and>
          (\<forall>p \<in> set (h ! xi0). length p = nz s) \<longrightarrow>
            (\<forall>h' e. cg_tomo_batch s h xi0 init titer \<noteq> Some (h', Inl e)) \<and>
            (\<forall>h' a. cg_tomo_batch s h xi0 init titer = Some (h', Inr a) \<longrightarrow>
               length (h' ! a) = nz s \<and>
               slice_ax0 (covered s) (nz s) (h' ! a) = slice_ax0 (covered s) (nz s) (h ! init)) \<and>
            ((\<forall>k < nz s div pnz s.
                cg_tomo s (slice_ax1 (k * pnz s) ((k + 1) * pnz s) (h ! xi0))
                  (slice_ax0 (k * pnz s) ((k + 1) * pnz s) (h ! init)) titer \<noteq> None) \<longrightarrow>
             (\<exists>h' a. cg_tomo_batch s h xi0 init titer = Some (h', Inr a))))"
proof -
  note f = fwd_truncates [OF assms, of u]
  note a = adj_truncates [OF assms, of data]
  note c = cg_truncates [OF assms, of init h xi0 titer]
  show ?thesis
    apply (rule conjI)
     apply (rule impI)
     apply (erule f)
    apply (rule conjI)
     apply (rule impI)
     apply (erule a)
    apply (rule impI)
    apply (elim conjE)
    apply (rule c)
       apply assumption+
    done
qed

theorem batch_truncates_witness:
  "0 < pnz (toy 1 3 1 2) \<and> \<not> pnz (toy 1 3 1 2) dvd nz (toy 1 3 1 2) \<and>
   (\<exists>res. fwd_tomo_batch (toy 1 3 1 2) [[[1]], [[2]], [[3]]] = Inr res \<and> shape3 1 3 1 res \<and>
      slice_ax1 0 2 res = fwd_tomo (toy 1 3 1 2) (slice_ax0 0 2 [[[1]], [[2]], [[3]]]) \<and>
      slice_ax1 2 3 res = zeros3 1 1 1 \<and>
      (\<forall>u'. length u' = 3 \<and> take 2 u' = [[[1]], [[2]]] \<longrightarrow>
         fwd_tomo_batch (toy 1 3 1 2) u' = Inr res)) \<and>
   (\<exists>res. adj_tomo_batch (toy 1 3 1 2) [[[1], [2], [3]]] = Inr res \<and> shape3 3 1 1 res \<and>
      slice_ax0 0 2 res = adj_tomo (toy 1 3 1 2) (slice_ax1 0 2 [[[1], [2], [3]]]) \<and>
      slice_ax0 2 3 res = zeros3 1 1 1 \<and>
      (\<forall>data'. (\<forall>p \<in> set data'. length p = 3) \<and> map (take 2) data' = [[[1], [2]]] \<longrightarrow>
         adj_tomo_batch (toy 1 3 1 2) data' = Inr res)) \<and>
   (\<forall>h' e. cg_tomo_batch (toy 1 3 1 2) [[[[1], [1], [1]]], [[[0]], [[0]], [[5]]]] 0 1 1 \<noteq>
        Some (h', Inl e)) \<and>
   cg_tomo_batch (toy 1 3 1 2) [[[[1], [1], [1]]], [[[0]], [[0]], [[5]]]] 0 1 1 =
     Some ([[[[1], [1], [1]]], [[[0]], [[0]], [[5]]], [[[1]], [[1]], [[5]]]], Inr 2) \<and>
   slice_ax0 2 3 ([[[[1], [1], [1]]], [[[0]], [[0]], [[5]]], [[[1]], [[1]], [[5::complex]]]] ! 2) =
     slice_ax0 2 3 ([[[[1], [1], [1]]], [[[0]], [[0]], [[5]]]] ! 1)"
  using batch_truncates [of "toy 1 3 1 2" "[[[1]], [[2]], [[3]]]" "[[[1], [2], [3]]]" 1
      "[[[[1], [1], [1]]], [[[0]], [[0]], [[5]]]]" 0 1] ex_cg_batch_trunc
  by (auto simp add: covered_toy [simplified] slice_ax0_def slice_ax1_def ex_cg [simplified])

end
